theory Spec2Isabelle
  imports Main
begin

section \<open>RelayProfiler: data model\<close>

text \<open>
  The module \<^verbatim>\<open>src/tools/RelayProfiler.js\<close> keeps two registries of handlers
  keyed by name, a global flag \<^verbatim>\<open>enableProfile\<close>, and, for every function wrapped
  by \<^verbatim>\<open>instrument\<close>, a closure holding the original function, a private list of
  handlers and a stack of invocation contexts.

  Handlers and original functions are supplied by the callers of the module. They
  are modelled as follows.
  \<^item> An original function is a function of its receiver and argument list; every
    call the module makes to it is recorded in a trace.
  \<^item> A handler \<^verbatim>\<open>(name, callback) => void\<close> is a function object with an identity
    and a body, a sequence of commands: \<open>Emit\<close> (an observable effect of the
    handler), \<open>Proceed\<close> (the synchronous call \<^verbatim>\<open>callback()\<close>), \<open>Invoke\<close> (a
    re-entrant call of an instrumented function, its result discarded) and
    \<open>Once\<close> (a block guarded by a flag that the handler sets the first time,
    which is how a recursive handler terminates). Handlers neither attach nor
    detach handlers while they run, as the note on \<^verbatim>\<open>instrument\<close> assumes, and
    do not catch exceptions.
  \<^item> A profile handler \<^verbatim>\<open>(name, state) => stop\<close> is a function object with an
    identity; calling it is recorded in the trace and returns a stop callback that
    remembers the handler, the name and the state; calling the stop callback is
    recorded in the trace.
  \<^item> Registry keys are ordinary property names: the registries behave as finite
    maps from strings.
\<close>

datatype val = Undefined | Num int | Str string

datatype error = HandlerDidNotInvoke | TypeError

datatype cmd = Emit nat | Proceed | Invoke nat val "val list" | Once nat "cmd list"

datatype handler = Handler (hid: nat) (body: "cmd list")

datatype profileHandler = ProfileHandler nat

datatype stopHandler = StopHandler nat string val

text \<open>
  The trace records what the module does. \<open>AggregateCall w d i\<close>: closure \<open>w\<close>, for
  the context at index \<open>d\<close> of its stack, calls \<^verbatim>\<open>aggregateHandlers[i]\<close>;
  \<open>InstanceCall w d i\<close>: it calls \<^verbatim>\<open>handlers[i]\<close>; \<open>OriginalCall w d this args\<close>: it
  calls the original function (on the path without handlers, where no context is
  pushed, \<open>d\<close> is the height of the stack). \<open>ContextPush w\<close> and \<open>ContextPop w\<close>:
  closure \<open>w\<close> pushes and pops a context. \<open>Emitted k\<close>: a handler performs its
  effect \<open>k\<close>. \<open>ProfileStart h nm st\<close>: profile handler \<open>h\<close> is called with
  \<open>(nm, st)\<close>; \<open>ProfileStop h nm st\<close>: the stop callback it returned is called.
\<close>

datatype event =
    AggregateCall nat nat nat
  | InstanceCall nat nat nat
  | OriginalCall nat nat val "val list"
  | ContextPush nat
  | ContextPop nat
  | Emitted nat
  | ProfileStart nat string val
  | ProfileStop nat string val

text \<open>
  The five slots of an invocation context \<^verbatim>\<open>[aggregateHandlers.length, handlers.length,
  this, arguments, NOT_INVOKED]\<close>. The sentinel \<^verbatim>\<open>NOT_INVOKED\<close> is an object private to
  the module, so the last slot is \<open>None\<close> for the sentinel and \<open>Some v\<close> for a value.
\<close>

record invocationContext =
  aggregateCount :: nat
  handlerCount :: nat
  receiver :: val
  arguments :: "val list"
  returnSlot :: "val option"

text \<open>
  The closure of one instrumented function. \<open>aggregateHandlers\<close> is the address of
  the array \<^verbatim>\<open>aggregateHandlersByName[name]\<close> that the closure captured when it was
  created.
\<close>

record wrapper =
  wname :: string
  originalFunction :: "val \<Rightarrow> val list \<Rightarrow> val"
  aggregateHandlers :: nat
  handlers :: "handler list"
  contexts :: "invocationContext list"

text \<open>
  The state of the module. The arrays of aggregate handlers are shared between the
  registry and the closures, so they live in a store \<open>arrays\<close> indexed by address,
  and \<open>nextArray\<close> is the next fresh address. \<open>dev\<close> is the constant \<^verbatim>\<open>__DEV__\<close>.
  \<open>flags\<close> is the state owned by the handlers (the guards of \<open>Once\<close>), \<open>trace\<close> the
  record of the calls made.
\<close>

record profiler =
  aggregateHandlersByName :: "string \<rightharpoonup> nat"
  arrays :: "nat \<Rightarrow> handler list"
  nextArray :: nat
  profileHandlersByName :: "string \<rightharpoonup> profileHandler list"
  enableProfile :: bool
  dev :: bool
  wrappers :: "wrapper list"
  flags :: "nat list"
  trace :: "event list"

datatype 'a outcome = Returned 'a | Threw error profiler | OutOfFuel

datatype callable = Instrumented nat | Uninstrumented "val \<Rightarrow> val list \<Rightarrow> val"

datatype session = DefaultProfiler | Session "stopHandler list option"

definition initial :: "bool \<Rightarrow> profiler" where
  "initial d =
     \<lparr>aggregateHandlersByName = Map.empty, arrays = (\<lambda>a. []), nextArray = 0,
      profileHandlersByName = Map.empty, enableProfile = d, dev = d,
      wrappers = [], flags = [], trace = []\<rparr>"

definition logEvent :: "event \<Rightarrow> profiler \<Rightarrow> profiler" where
  "logEvent e s = s\<lparr>trace := trace s @ [e]\<rparr>"

text \<open>
  Modelled from the spec: \<^verbatim>\<open>removeFromArray\<close> is required from another module; the
  spec has it remove the first match by identity and do nothing when there is none.
\<close>

definition removeFromArray :: "'a list \<Rightarrow> 'a \<Rightarrow> 'a list" where
  "removeFromArray array element = remove1 element array"

section \<open>The profile engine\<close>

definition setEnableProfile :: "bool \<Rightarrow> profiler \<Rightarrow> profiler" where
  "setEnableProfile isEnabled s = s\<lparr>enableProfile := isEnabled\<rparr>"

fun callProfileHandler ::
  "profileHandler \<Rightarrow> string \<Rightarrow> val \<Rightarrow> profiler \<Rightarrow> stopHandler \<times> profiler" where
  "callProfileHandler (ProfileHandler h) nm st s =
     (StopHandler h nm st, logEvent (ProfileStart h nm st) s)"

fun callStopHandler :: "stopHandler \<Rightarrow> profiler \<Rightarrow> profiler" where
  "callStopHandler (StopHandler h nm st) s = logEvent (ProfileStop h nm st) s"

text \<open>
  The loop \<^verbatim>\<open>for (ii = profileHandlers.length - 1; ii >= 0; ii--)\<close>; the second
  argument is \<open>ii + 1\<close>. \<open>stopHandlers\<close> is \<open>None\<close> while the variable is undefined,
  and \<^verbatim>\<open>unshift\<close> puts the new callback in front.
\<close>

fun profileLoop ::
  "profileHandler list \<Rightarrow> nat \<Rightarrow> string \<Rightarrow> val \<Rightarrow> stopHandler list option \<Rightarrow> profiler
     \<Rightarrow> stopHandler list option \<times> profiler" where
  "profileLoop profileHandlers 0 nm st stopHandlers s = (stopHandlers, s)"
| "profileLoop profileHandlers (Suc ii) nm st stopHandlers s =
     (case callProfileHandler (profileHandlers ! ii) nm st s of
        (stopHandler, s1) \<Rightarrow>
          profileLoop profileHandlers ii nm st
            (Some (stopHandler # (case stopHandlers of None \<Rightarrow> [] | Some l \<Rightarrow> l))) s1)"

definition profile :: "string \<Rightarrow> val \<Rightarrow> profiler \<Rightarrow> session \<times> profiler" where
  "profile nm st s =
     (if enableProfile s then
        (case profileHandlersByName s nm of
           Some profileHandlers \<Rightarrow>
             (case profileLoop profileHandlers (length profileHandlers) nm st None s of
                (stopHandlers, s1) \<Rightarrow> (Session stopHandlers, s1))
         | None \<Rightarrow> (DefaultProfiler, s))
      else (DefaultProfiler, s))"

fun stop :: "session \<Rightarrow> profiler \<Rightarrow> profiler" where
  "stop DefaultProfiler s = s"
| "stop (Session None) s = s"
| "stop (Session (Some stopHandlers)) s = fold callStopHandler stopHandlers s"

definition attachProfileHandler :: "string \<Rightarrow> profileHandler \<Rightarrow> profiler \<Rightarrow> profiler" where
  "attachProfileHandler nm h s =
     (if enableProfile s then
        (let s1 = (if profileHandlersByName s nm = None
                   then s\<lparr>profileHandlersByName := (profileHandlersByName s)(nm \<mapsto> [])\<rparr>
                   else s)
         in case profileHandlersByName s1 nm of
              Some hs \<Rightarrow> s1\<lparr>profileHandlersByName := (profileHandlersByName s1)(nm \<mapsto> hs @ [h])\<rparr>
            | None \<Rightarrow> s1)
      else s)"

definition detachProfileHandler :: "string \<Rightarrow> profileHandler \<Rightarrow> profiler \<Rightarrow> profiler" where
  "detachProfileHandler nm h s =
     (if enableProfile s then
        (case profileHandlersByName s nm of
           Some hs \<Rightarrow>
             s\<lparr>profileHandlersByName := (profileHandlersByName s)(nm \<mapsto> removeFromArray hs h)\<rparr>
         | None \<Rightarrow> s)
      else s)"

text \<open>
  What calling a profile handler with \<open>(nm, st)\<close> returns and records, and what
  calling the returned stop callback records.
\<close>

fun stopHandlerOf :: "string \<Rightarrow> val \<Rightarrow> profileHandler \<Rightarrow> stopHandler" where
  "stopHandlerOf nm st (ProfileHandler h) = StopHandler h nm st"

fun startEvent :: "string \<Rightarrow> val \<Rightarrow> profileHandler \<Rightarrow> event" where
  "startEvent nm st (ProfileHandler h) = ProfileStart h nm st"

fun stopEvent :: "string \<Rightarrow> val \<Rightarrow> profileHandler \<Rightarrow> event" where
  "stopEvent nm st (ProfileHandler h) = ProfileStop h nm st"



text \<open>Two profile handlers attached under the name \<open>y\<close>, in a development build.\<close>

definition twoProfileHandlers :: profiler where
  "twoProfileHandlers =
     attachProfileHandler ''y'' (ProfileHandler 2)
       (attachProfileHandler ''y'' (ProfileHandler 1) (initial True))"

section \<open>The instrument engine\<close>

definition ensureAggregateKey :: "string \<Rightarrow> profiler \<Rightarrow> profiler" where
  "ensureAggregateKey nm s =
     (if aggregateHandlersByName s nm = None
      then s\<lparr>aggregateHandlersByName := (aggregateHandlersByName s)(nm \<mapsto> nextArray s),
             arrays := (arrays s)(nextArray s := []),
             nextArray := Suc (nextArray s)\<rparr>
      else s)"

definition instrument ::
  "string \<Rightarrow> (val \<Rightarrow> val list \<Rightarrow> val) \<Rightarrow> profiler \<Rightarrow> callable \<times> profiler" where
  "instrument nm f s =
     (if dev s then
        (let s1 = ensureAggregateKey nm s in
         case aggregateHandlersByName s1 nm of
           Some a \<Rightarrow>
             (Instrumented (length (wrappers s1)),
              s1\<lparr>wrappers := wrappers s1 @
                   [\<lparr>wname = nm, originalFunction = f, aggregateHandlers = a,
                     handlers = [], contexts = []\<rparr>]\<rparr>)
         | None \<Rightarrow> (Uninstrumented f, s1))
      else (Uninstrumented f, s))"

definition attachAggregateHandler :: "string \<Rightarrow> handler \<Rightarrow> profiler \<Rightarrow> profiler" where
  "attachAggregateHandler nm h s =
     (if dev s then
        (let s1 = ensureAggregateKey nm s in
         case aggregateHandlersByName s1 nm of
           Some a \<Rightarrow> s1\<lparr>arrays := (arrays s1)(a := arrays s1 a @ [h])\<rparr>
         | None \<Rightarrow> s1)
      else s)"

definition detachAggregateHandler :: "string \<Rightarrow> handler \<Rightarrow> profiler \<Rightarrow> profiler" where
  "detachAggregateHandler nm h s =
     (if dev s then
        (case aggregateHandlersByName s nm of
           Some a \<Rightarrow> s\<lparr>arrays := (arrays s)(a := removeFromArray (arrays s a) h)\<rparr>
         | None \<Rightarrow> s)
      else s)"

definition updWrapper :: "nat \<Rightarrow> (wrapper \<Rightarrow> wrapper) \<Rightarrow> profiler \<Rightarrow> profiler" where
  "updWrapper w f s = s\<lparr>wrappers := (wrappers s)[w := f (wrappers s ! w)]\<rparr>"

fun attachHandler :: "callable \<Rightarrow> handler \<Rightarrow> profiler \<Rightarrow> profiler" where
  "attachHandler (Instrumented w) h s =
     updWrapper w (\<lambda>wr. wr\<lparr>handlers := handlers wr @ [h]\<rparr>) s"
| "attachHandler (Uninstrumented f) h s = s"

fun detachHandler :: "callable \<Rightarrow> handler \<Rightarrow> profiler \<Rightarrow> profiler" where
  "detachHandler (Instrumented w) h s =
     updWrapper w (\<lambda>wr. wr\<lparr>handlers := removeFromArray (handlers wr) h\<rparr>) s"
| "detachHandler (Uninstrumented f) h s = s"

text \<open>Writing to a slot of the context on top of the stack of wrapper \<open>w\<close>.\<close>

definition setTop :: "nat \<Rightarrow> invocationContext \<Rightarrow> profiler \<Rightarrow> profiler" where
  "setTop w c s =
     updWrapper w (\<lambda>wr. wr\<lparr>contexts := (contexts wr)[length (contexts wr) - 1 := c]\<rparr>) s"

definition pushContext :: "nat \<Rightarrow> invocationContext \<Rightarrow> profiler \<Rightarrow> profiler" where
  "pushContext w c s =
     logEvent (ContextPush w) (updWrapper w (\<lambda>wr. wr\<lparr>contexts := contexts wr @ [c]\<rparr>) s)"

definition popContext :: "nat \<Rightarrow> profiler \<Rightarrow> profiler" where
  "popContext w s =
     logEvent (ContextPop w) (updWrapper w (\<lambda>wr. wr\<lparr>contexts := butlast (contexts wr)\<rparr>) s)"

text \<open>
  In \<open>instrument\<close> the key exists once \<open>ensureAggregateKey\<close> has run, so the branch
  for a missing key is never taken (\<open>instrument_dev\<close> below). A closure is named
  by its index in \<open>wrappers\<close>; calling an index that names no closure is calling
  what is not a function, a \<open>TypeError\<close>.
\<close>

text \<open>
  \<open>invokeHandlers\<close> and \<open>instrumentedCallback\<close> are the two closures of
  \<^verbatim>\<open>instrument\<close>; \<open>runHandler\<close> executes the body of a handler that was called with
  \<^verbatim>\<open>invokeHandlers\<close> of wrapper \<open>w\<close> as its callback. A handler may call an
  instrumented function that calls the handler again, without end; the first
  argument bounds the nesting depth of handler calls, and \<open>OutOfFuel\<close> is the
  result of a run that needs more.
\<close>

function (sequential) invokeHandlers :: "nat \<Rightarrow> nat \<Rightarrow> profiler \<Rightarrow> profiler outcome"
  and instrumentedCallback ::
    "nat \<Rightarrow> nat \<Rightarrow> val \<Rightarrow> val list \<Rightarrow> profiler \<Rightarrow> (val \<times> profiler) outcome"
  and runHandler :: "nat \<Rightarrow> nat \<Rightarrow> cmd list \<Rightarrow> profiler \<Rightarrow> profiler outcome" where
  "invokeHandlers n w s =
     (if contexts (wrappers s ! w) = [] then Threw TypeError s
      else
        let wr = wrappers s ! w;
            context = last (contexts wr);
            d = length (contexts wr) - 1
        in
          if aggregateCount context \<noteq> 0 then
            (let i = aggregateCount context - 1;
                 s1 = setTop w (context\<lparr>aggregateCount := i\<rparr>) s;
                 hs = arrays s1 (aggregateHandlers wr)
             in if i < length hs then
                  (case n of
                     0 \<Rightarrow> OutOfFuel
                   | Suc m \<Rightarrow> runHandler m w (body (hs ! i)) (logEvent (AggregateCall w d i) s1))
                else Threw TypeError s1)
          else if handlerCount context \<noteq> 0 then
            (let i = handlerCount context - 1;
                 s1 = setTop w (context\<lparr>handlerCount := i\<rparr>) s;
                 hs = handlers wr
             in if i < length hs then
                  (case n of
                     0 \<Rightarrow> OutOfFuel
                   | Suc m \<Rightarrow> runHandler m w (body (hs ! i)) (logEvent (InstanceCall w d i) s1))
                else Threw TypeError s1)
          else
            Returned
              (setTop w
                 (context\<lparr>returnSlot :=
                    Some (originalFunction wr (receiver context) (arguments context))\<rparr>)
                 (logEvent (OriginalCall w d (receiver context) (arguments context)) s)))"
| "instrumentedCallback n w this args s =
     (if length (wrappers s) \<le> w then Threw TypeError s
      else
        let wr = wrappers s ! w in
          if length (arrays s (aggregateHandlers wr)) = 0 \<and> length (handlers wr) = 0 then
            Returned (originalFunction wr this args,
                      logEvent (OriginalCall w (length (contexts wr)) this args) s)
          else
            (case invokeHandlers n w
                    (pushContext w
                       \<lparr>aggregateCount = length (arrays s (aggregateHandlers wr)),
                        handlerCount = length (handlers wr),
                        receiver = this, arguments = args, returnSlot = None\<rparr> s) of
               Returned s2 \<Rightarrow>
                 (if contexts (wrappers s2 ! w) = [] then Threw TypeError s2
                  else
                    (case returnSlot (last (contexts (wrappers s2 ! w))) of
                       None \<Rightarrow> Threw HandlerDidNotInvoke (popContext w s2)
                     | Some returnValue \<Rightarrow> Returned (returnValue, popContext w s2)))
             | Threw e s2 \<Rightarrow> Threw e s2
             | OutOfFuel \<Rightarrow> OutOfFuel))"
| "runHandler n w [] s = Returned s"
| "runHandler n w (Emit e # cs) s = runHandler n w cs (logEvent (Emitted e) s)"
| "runHandler n w (Proceed # cs) s =
     (case invokeHandlers n w s of
        Returned s1 \<Rightarrow> runHandler n w cs s1
      | Threw e s1 \<Rightarrow> Threw e s1
      | OutOfFuel \<Rightarrow> OutOfFuel)"
| "runHandler n w (Invoke w' this args # cs) s =
     (case instrumentedCallback n w' this args s of
        Returned (returnValue, s1) \<Rightarrow> runHandler n w cs s1
      | Threw e s1 \<Rightarrow> Threw e s1
      | OutOfFuel \<Rightarrow> OutOfFuel)"
| "runHandler n w (Once g b # cs) s =
     (if g \<in> set (flags s) then runHandler n w cs s
      else
        (case runHandler n w b (s\<lparr>flags := g # flags s\<rparr>) of
           Returned s1 \<Rightarrow> runHandler n w cs s1
         | Threw e s1 \<Rightarrow> Threw e s1
         | OutOfFuel \<Rightarrow> OutOfFuel))"
  by pat_completeness auto

termination
proof (relation "measures
   [\<lambda>x. case x of Inl (n, w, s) \<Rightarrow> n | Inr (Inl (n, w, this, args, s)) \<Rightarrow> n
                        | Inr (Inr (n, w, cs, s)) \<Rightarrow> n,
    \<lambda>x. case x of Inl (n, w, s) \<Rightarrow> 0 | Inr (Inl (n, w, this, args, s)) \<Rightarrow> 1
                        | Inr (Inr (n, w, cs, s)) \<Rightarrow> 2,
    \<lambda>x. case x of Inl (n, w, s) \<Rightarrow> 0 | Inr (Inl (n, w, this, args, s)) \<Rightarrow> 0
                        | Inr (Inr (n, w, cs, s)) \<Rightarrow> size_list size cs]")
qed simp_all

declare invokeHandlers.simps [simp del]
declare instrumentedCallback.simps [simp del]

text \<open>
  Calling what \<^verbatim>\<open>instrument\<close> returned. Outside a development build that is the
  original function itself, and the module takes no part in the call.
\<close>

fun call :: "nat \<Rightarrow> callable \<Rightarrow> val \<Rightarrow> val list \<Rightarrow> profiler \<Rightarrow> (val \<times> profiler) outcome" where
  "call n (Instrumented w) this args s = instrumentedCallback n w this args s"
| "call n (Uninstrumented f) this args s = Returned (f this args, s)"

section \<open>Notions used in the proofs\<close>

text \<open>
  \<open>static\<close> forgets what an invocation may change: the context stacks, the
  flags of the handlers and the trace. \<open>onExit P r\<close> says that \<open>P\<close> holds of the
  state in which a run ended, by return or by exception.
\<close>

definition static :: "profiler \<Rightarrow> profiler" where
  "static s = s\<lparr>wrappers := map (\<lambda>wr. wr\<lparr>contexts := []\<rparr>) (wrappers s), flags := [], trace := []\<rparr>"

fun onExit :: "(profiler \<Rightarrow> bool) \<Rightarrow> profiler outcome \<Rightarrow> bool" where
  "onExit P (Returned s) = P s"
| "onExit P (Threw e s) = P s"
| "onExit P OutOfFuel = True"

text \<open>
  \<open>topRel f c c'\<close>: the context \<open>c'\<close> is \<open>c\<close> with counts changed and the result
  slot either untouched or holding the result of \<open>f\<close> on the recorded receiver
  and arguments. \<open>stackRel w ws ws'\<close>: the closures \<open>ws'\<close> are the closures \<open>ws\<close>
  but for the context on top of the stack of \<open>w\<close>, which changed as \<open>topRel\<close>
  allows.
\<close>

definition topRel ::
  "(val \<Rightarrow> val list \<Rightarrow> val) \<Rightarrow> invocationContext \<Rightarrow> invocationContext \<Rightarrow> bool" where
  "topRel f c c' \<longleftrightarrow>
     receiver c' = receiver c \<and> arguments c' = arguments c \<and>
     (returnSlot c' = returnSlot c \<or> returnSlot c' = Some (f (receiver c) (arguments c)))"

definition stackRel :: "nat \<Rightarrow> wrapper list \<Rightarrow> wrapper list \<Rightarrow> bool" where
  "stackRel w ws ws' \<longleftrightarrow>
     (\<exists>cs'. ws' = ws[w := (ws ! w)\<lparr>contexts := cs'\<rparr>] \<and>
        length cs' = length (contexts (ws ! w)) \<and>
        butlast cs' = butlast (contexts (ws ! w)) \<and>
        (contexts (ws ! w) \<noteq> [] \<longrightarrow>
           topRel (originalFunction (ws ! w)) (last (contexts (ws ! w))) (last cs')))"

text \<open>
  \<open>callsFor w d ev\<close>: the events \<open>ev\<close> record a call, of a handler or of the
  original function, that wrapper \<open>w\<close> made for the context at index \<open>d\<close> of its
  stack; \<open>calledOriginal w d ev\<close>: they record such a call of the original function.
  \<open>heights\<close> gives the height of every context stack, \<open>inFlight hs w d\<close> says that
  index \<open>d\<close> of the stack of \<open>w\<close> holds a context. \<open>ownCalls w s s'\<close>: from \<open>s\<close> to
  \<open>s'\<close> the trace grew, the only calls made for a context that was in flight in
  \<open>s\<close> were made for the top context of \<open>w\<close>, and a call of the original function
  for it filled its result slot. \<open>nestedCalls s s'\<close>: the trace grew and no call
  was made for a context that was in flight in \<open>s\<close>.
\<close>

fun isCallOf :: "nat \<Rightarrow> nat \<Rightarrow> event \<Rightarrow> bool" where
  "isCallOf w d (AggregateCall w' d' i) = (w' = w \<and> d' = d)"
| "isCallOf w d (InstanceCall w' d' i) = (w' = w \<and> d' = d)"
| "isCallOf w d (OriginalCall w' d' r a) = (w' = w \<and> d' = d)"
| "isCallOf w d e = False"

fun isOriginalCallOf :: "nat \<Rightarrow> nat \<Rightarrow> event \<Rightarrow> bool" where
  "isOriginalCallOf w d (OriginalCall w' d' r a) = (w' = w \<and> d' = d)"
| "isOriginalCallOf w d e = False"

definition callsFor :: "nat \<Rightarrow> nat \<Rightarrow> event list \<Rightarrow> bool" where
  "callsFor w d ev = list_ex (isCallOf w d) ev"

definition calledOriginal :: "nat \<Rightarrow> nat \<Rightarrow> event list \<Rightarrow> bool" where
  "calledOriginal w d ev = list_ex (isOriginalCallOf w d) ev"

definition heights :: "profiler \<Rightarrow> nat list" where
  "heights s = map (\<lambda>wr. length (contexts wr)) (wrappers s)"

definition inFlight :: "nat list \<Rightarrow> nat \<Rightarrow> nat \<Rightarrow> bool" where
  "inFlight hs w d \<longleftrightarrow> w < length hs \<and> d < hs ! w"

definition ownCalls :: "nat \<Rightarrow> profiler \<Rightarrow> profiler \<Rightarrow> bool" where
  "ownCalls w s s' \<longleftrightarrow>
     (\<exists>ev. trace s' = trace s @ ev \<and>
        (\<forall>w' d. callsFor w' d ev \<longrightarrow> inFlight (heights s) w' d \<longrightarrow>
           w' = w \<and> Suc d = heights s ! w) \<and>
        (\<forall>d. calledOriginal w d ev \<longrightarrow> Suc d = heights s ! w \<longrightarrow>
           returnSlot (last (contexts (wrappers s' ! w))) \<noteq> None))"

definition nestedCalls :: "profiler \<Rightarrow> profiler \<Rightarrow> bool" where
  "nestedCalls s s' \<longleftrightarrow>
     (\<exists>ev. trace s' = trace s @ ev \<and>
        (\<forall>w' d. callsFor w' d ev \<longrightarrow> \<not> inFlight (heights s) w' d))"

text \<open>
  A handler that does nothing but observable effects of its own around one call
  of its callback: some \<open>Emit\<close>s, one \<open>Proceed\<close>, some \<open>Emit\<close>s, like the handler
  that measures a duration in the comment on the module.
\<close>

fun onlyEmits :: "cmd list \<Rightarrow> bool" where
  "onlyEmits [] = True"
| "onlyEmits (Emit e # cs) = onlyEmits cs"
| "onlyEmits (c # cs) = False"

fun proceedsOnce :: "cmd list \<Rightarrow> bool" where
  "proceedsOnce [] = False"
| "proceedsOnce (Emit e # cs) = proceedsOnce cs"
| "proceedsOnce (Proceed # cs) = onlyEmits cs"
| "proceedsOnce (c # cs) = False"

text \<open>
  A handler that calls its callback exactly once whatever the state: its body has
  one \<open>Proceed\<close>, outside every guarded block, and no other; before and after it may
  perform effects, call instrumented functions and run guarded blocks.
\<close>

fun noProceed :: "cmd list \<Rightarrow> bool" where
  "noProceed [] = True"
| "noProceed (Emit e # cs) = noProceed cs"
| "noProceed (Proceed # cs) = False"
| "noProceed (Invoke w this args # cs) = noProceed cs"
| "noProceed (Once g b # cs) = (noProceed b \<and> noProceed cs)"

fun callsBackOnce :: "cmd list \<Rightarrow> bool" where
  "callsBackOnce [] = False"
| "callsBackOnce (Emit e # cs) = callsBackOnce cs"
| "callsBackOnce (Proceed # cs) = noProceed cs"
| "callsBackOnce (Invoke w this args # cs) = callsBackOnce cs"
| "callsBackOnce (Once g b # cs) = (noProceed b \<and> callsBackOnce cs)"



definition chainDone :: "nat \<Rightarrow> profiler \<Rightarrow> event list \<Rightarrow> profiler" where
  "chainDone w s t =
     (let c = last (contexts (wrappers s ! w)) in
      (setTop w (c\<lparr>aggregateCount := 0, handlerCount := 0,
                   returnSlot := Some (originalFunction (wrappers s ! w) (receiver c) (arguments c))\<rparr>) s)
      \<lparr>trace := t\<rparr>)"

section \<open>Example states\<close>

text \<open>
  An original function, and development builds in which one function has been
  instrumented: with two aggregate and two instance handlers that each call their
  callback once; with a handler that calls the instrumented function again the
  first time it runs, and then its callback; with a handler that never calls
  its callback.
\<close>

definition addOne :: "val \<Rightarrow> val list \<Rightarrow> val" where
  "addOne this args = (case args of [Num a] \<Rightarrow> Num (a + 1) | _ \<Rightarrow> Undefined)"


definition recursiveExample :: profiler where
  "recursiveExample =
     attachHandler (Instrumented 0) (Handler 1 [Once 0 [Invoke 0 (Str ''inner'') [Num 10]], Proceed])
       (snd (instrument ''f'' addOne (initial True)))"

definition silentExample :: profiler where
  "silentExample =
     attachHandler (Instrumented 0) (Handler 1 [Emit 5])
       (snd (instrument ''f'' addOne (initial True)))"



text \<open>
  \<open>plainExample\<close> has an instrumented function without handlers. \<open>recursiveInner\<close>
  is the state of \<open>recursiveExample\<close> inside an invocation with receiver \<open>outer\<close>, at
  the point where the handler has set its flag and is about to call the
  instrumented function again.
\<close>

definition plainExample :: profiler where
  "plainExample = snd (instrument ''f'' addOne (initial True))"

definition recursiveInner :: profiler where
  "recursiveInner =
     (logEvent (InstanceCall 0 0 0)
        (setTop 0 \<lparr>aggregateCount = 0, handlerCount = 0, receiver = Str ''outer'',
                    arguments = [Num 1], returnSlot = None\<rparr>
           (pushContext 0 \<lparr>aggregateCount = 0, handlerCount = 1, receiver = Str ''outer'',
                             arguments = [Num 1], returnSlot = None\<rparr> recursiveExample)))
     \<lparr>flags := [0]\<rparr>"

section \<open>The operations of the module as data\<close>

text \<open>
  Every function the module exports, and calling what \<^verbatim>\<open>instrument\<close> returned, as one
  datatype, to speak of every operation and of every reachable state.
  (\<^verbatim>\<open>instrumentMethods\<close> is a loop of \<^verbatim>\<open>instrument\<close> over the keys of an object, run by
  a utility of another module; it is a sequence of \<open>Instrument\<close> operations.)
  \<open>applyCall\<close> gives the state after an operation, \<open>None\<close> when a call runs out
  of depth. \<open>newAggregateKeys\<close> and \<open>newProfileKeys\<close> are the keys an operation
  creates when they are not there yet.
\<close>

datatype apiCall =
    SetEnableProfile bool
  | Instrument string "val \<Rightarrow> val list \<Rightarrow> val"
  | AttachHandler callable handler
  | DetachHandler callable handler
  | AttachAggregateHandler string handler
  | DetachAggregateHandler string handler
  | Profile string val
  | Stop session
  | AttachProfileHandler string profileHandler
  | DetachProfileHandler string profileHandler
  | Call nat callable val "val list"

fun applyCall :: "apiCall \<Rightarrow> profiler \<Rightarrow> profiler option" where
  "applyCall (SetEnableProfile isEnabled) s = Some (setEnableProfile isEnabled s)"
| "applyCall (Instrument nm f) s = Some (snd (instrument nm f s))"
| "applyCall (AttachHandler c h) s = Some (attachHandler c h s)"
| "applyCall (DetachHandler c h) s = Some (detachHandler c h s)"
| "applyCall (AttachAggregateHandler nm h) s = Some (attachAggregateHandler nm h s)"
| "applyCall (DetachAggregateHandler nm h) s = Some (detachAggregateHandler nm h s)"
| "applyCall (Profile nm st) s = Some (snd (profile nm st s))"
| "applyCall (Stop session) s = Some (stop session s)"
| "applyCall (AttachProfileHandler nm h) s = Some (attachProfileHandler nm h s)"
| "applyCall (DetachProfileHandler nm h) s = Some (detachProfileHandler nm h s)"
| "applyCall (Call n c this args) s =
     (case call n c this args s of
        Returned (v, s') \<Rightarrow> Some s'
      | Threw e s' \<Rightarrow> Some s'
      | OutOfFuel \<Rightarrow> None)"

fun applyCalls :: "apiCall list \<Rightarrow> profiler \<Rightarrow> profiler option" where
  "applyCalls [] s = Some s"
| "applyCalls (c # cs) s = (case applyCall c s of None \<Rightarrow> None | Some s1 \<Rightarrow> applyCalls cs s1)"



text \<open>
  \<open>aliased\<close>: every closure holds the array that the registry holds under the
  closure's name. \<open>distinctArrays\<close>: different names have different arrays, all
  of them allocated.
\<close>

definition aliased :: "profiler \<Rightarrow> bool" where
  "aliased s \<longleftrightarrow>
     (\<forall>wr\<in>set (wrappers s). aggregateHandlersByName s (wname wr) = Some (aggregateHandlers wr))"

definition distinctArrays :: "profiler \<Rightarrow> bool" where
  "distinctArrays s \<longleftrightarrow>
     inj_on (aggregateHandlersByName s) (dom (aggregateHandlersByName s)) \<and>
     (\<forall>a\<in>ran (aggregateHandlersByName s). a < nextArray s)"

section \<open>Properties of the profile engine\<close>

lemma callProfileHandler_eq:
  "callProfileHandler h nm st s = (stopHandlerOf nm st h, logEvent (startEvent nm st h) s)"
  by (cases h) simp

lemma callStopHandler_eq:
  "callStopHandler (stopHandlerOf nm st h) s = logEvent (stopEvent nm st h) s"
  by (cases h) simp

lemma profileLoop_eq:
  "k \<le> length hs \<Longrightarrow>
   profileLoop hs k nm st acc s =
     ((if k = 0 then acc
       else Some (map (stopHandlerOf nm st) (take k hs) @ (case acc of None \<Rightarrow> [] | Some l \<Rightarrow> l))),
      s\<lparr>trace := trace s @ map (startEvent nm st) (rev (take k hs))\<rparr>)"
proof (induction k arbitrary: acc s)
  case 0
  then show ?case by simp
next
  case (Suc k)
  then have k: "k < length hs" by simp
  show ?case
    using Suc.IH [of "Some (stopHandlerOf nm st (hs ! k) # (case acc of None \<Rightarrow> [] | Some l \<Rightarrow> l))"
                     "logEvent (startEvent nm st (hs ! k)) s"] k
    by (simp add: callProfileHandler_eq take_Suc_conv_app_nth logEvent_def)
qed

lemma fold_callStopHandler:
  "fold callStopHandler (map (stopHandlerOf nm st) hs) s =
     s\<lparr>trace := trace s @ map (stopEvent nm st) hs\<rparr>"
  by (induction hs arbitrary: s) (simp_all add: callStopHandler_eq logEvent_def)

lemma profile_enabled:
  "enableProfile s \<Longrightarrow> profileHandlersByName s nm = Some hs \<Longrightarrow>
   profile nm st s =
     (Session (if hs = [] then None else Some (map (stopHandlerOf nm st) hs)),
      s\<lparr>trace := trace s @ map (startEvent nm st) (rev hs)\<rparr>)"
  by (simp add: profile_def profileLoop_eq)


lemma stop_session:
  "stop (Session (if hs = [] then None else Some (map (stopHandlerOf nm st) hs))) s =
     s\<lparr>trace := trace s @ map (stopEvent nm st) hs\<rparr>"
  by (simp add: fold_callStopHandler)

lemma stop_session_funpow:
  "trace ((stop (Session (if hs = [] then None else Some (map (stopHandlerOf nm st) hs))) ^^ k) s) =
     trace s @ concat (replicate k (map (stopEvent nm st) hs))"
proof (induction k)
  case 0
  show ?case by simp
next
  case (Suc k)
  have "concat (replicate k (map (stopEvent nm st) hs)) @ map (stopEvent nm st) hs =
        map (stopEvent nm st) hs @ concat (replicate k (map (stopEvent nm st) hs))"
    by (induction k) simp_all
  with Suc show ?case
    by (simp add: stop_session del: stop.simps)
qed

lemma twoProfileHandlers_enabled: "enableProfile twoProfileHandlers"
  by (simp add: twoProfileHandlers_def attachProfileHandler_def initial_def)

lemma twoProfileHandlers_registry:
  "profileHandlersByName twoProfileHandlers ''y'' = Some [ProfileHandler 1, ProfileHandler 2]"
  by (simp add: twoProfileHandlers_def attachProfileHandler_def initial_def)

lemma twoProfileHandlers_trace: "trace twoProfileHandlers = []"
  by (simp add: twoProfileHandlers_def attachProfileHandler_def initial_def)



text \<open>
  C5, as stated, fails: \<open>stop\<close> has no guard, so a second call of \<open>stop\<close> on the
  same session calls every stop callback a second time.
\<close>

theorem stop_twice_counterexample:
  "count_list
     (trace (stop (fst (profile ''y'' Undefined twoProfileHandlers))
              (stop (fst (profile ''y'' Undefined twoProfileHandlers))
                 (snd (profile ''y'' Undefined twoProfileHandlers)))))
     (ProfileStop 1 ''y'' Undefined) = 2"
  by (simp add: profile_enabled [OF twoProfileHandlers_enabled twoProfileHandlers_registry]
        twoProfileHandlers_trace logEvent_def)

text \<open>
  C5, amended. Every call of \<open>stop\<close> on a session calls each collected stop
  callback exactly once, in registration order: \<open>k\<close> calls of \<open>stop\<close> call each
  callback \<open>k\<close> times.
\<close>

theorem stop_calls_every_callback_each_time:
  assumes "enableProfile s" and "profileHandlersByName s nm = Some hs"
  shows "trace ((stop (fst (profile nm st s)) ^^ k) s') =
           trace s' @ concat (replicate k (map (stopEvent nm st) hs))"
  using assms by (simp add: profile_enabled stop_session_funpow del: stop.simps)

theorem stop_calls_every_callback_each_time_witness:
  "enableProfile twoProfileHandlers \<and>
   profileHandlersByName twoProfileHandlers ''y'' = Some [ProfileHandler 1, ProfileHandler 2] \<and>
   trace ((stop (fst (profile ''y'' Undefined twoProfileHandlers)) ^^ 2) twoProfileHandlers) =
     [ProfileStop 1 ''y'' Undefined, ProfileStop 2 ''y'' Undefined,
      ProfileStop 1 ''y'' Undefined, ProfileStop 2 ''y'' Undefined]"
  using stop_calls_every_callback_each_time
          [OF twoProfileHandlers_enabled twoProfileHandlers_registry,
           where st = Undefined and k = 2 and s' = twoProfileHandlers]
  by (simp add: twoProfileHandlers_enabled twoProfileHandlers_registry twoProfileHandlers_trace
        numeral_2_eq_2)





text \<open>
  C7. While \<open>enableProfile\<close> is false, \<open>attachProfileHandler\<close> and
  \<open>detachProfileHandler\<close> return the state they were given: no key is created and no
  entry is added or removed, for any name.
\<close>

theorem profile_handler_registry_frozen_when_disabled:
  assumes "\<not> enableProfile s"
  shows "attachProfileHandler nm h s = s \<and> detachProfileHandler nm h s = s"
  using assms by (simp add: attachProfileHandler_def detachProfileHandler_def)

theorem profile_handler_registry_frozen_when_disabled_witness:
  "\<not> enableProfile (setEnableProfile False twoProfileHandlers) \<and>
   attachProfileHandler ''z'' (ProfileHandler 3) (setEnableProfile False twoProfileHandlers) =
     setEnableProfile False twoProfileHandlers \<and>
   detachProfileHandler ''y'' (ProfileHandler 1) (setEnableProfile False twoProfileHandlers) =
     setEnableProfile False twoProfileHandlers"
proof -
  have off: "\<not> enableProfile (setEnableProfile False twoProfileHandlers)"
    by (simp add: setEnableProfile_def)
  show ?thesis
    using off
      profile_handler_registry_frozen_when_disabled
        [OF off, where nm = "''z''" and h = "ProfileHandler 3"]
      profile_handler_registry_frozen_when_disabled
        [OF off, where nm = "''y''" and h = "ProfileHandler 1"]
    by simp
qed

section \<open>Attaching handlers\<close>

text \<open>
  Attaching appends: the order of a sequence of handlers is the order in which
  they were attached. In a development build \<^verbatim>\<open>instrument\<close> returns a new closure
  that captured the array registered under the name.
\<close>

lemma attachProfileHandler_appends:
  "enableProfile s \<Longrightarrow>
   profileHandlersByName (attachProfileHandler nm h s) nm =
     Some ((case profileHandlersByName s nm of None \<Rightarrow> [] | Some hs \<Rightarrow> hs) @ [h])"
  by (simp add: attachProfileHandler_def Let_def split: option.splits)

lemma attachAggregateHandler_appends:
  "dev s \<Longrightarrow> aggregateHandlersByName s nm = Some a \<Longrightarrow>
   aggregateHandlersByName (attachAggregateHandler nm h s) nm = Some a \<and>
   arrays (attachAggregateHandler nm h s) a = arrays s a @ [h]"
  by (simp add: attachAggregateHandler_def ensureAggregateKey_def)

lemma attachHandler_appends:
  "w < length (wrappers s) \<Longrightarrow>
   handlers (wrappers (attachHandler (Instrumented w) h s) ! w) = handlers (wrappers s ! w) @ [h]"
  by (simp add: updWrapper_def)

lemma instrument_dev:
  "dev s \<Longrightarrow>
   \<exists>a. aggregateHandlersByName (ensureAggregateKey nm s) nm = Some a \<and>
       instrument nm f s =
         (Instrumented (length (wrappers s)),
          (ensureAggregateKey nm s)\<lparr>wrappers := wrappers s @
             [\<lparr>wname = nm, originalFunction = f, aggregateHandlers = a,
               handlers = [], contexts = []\<rparr>]\<rparr>)"
  by (auto simp: instrument_def ensureAggregateKey_def)

lemma instrument_not_dev: "\<not> dev s \<Longrightarrow> instrument nm f s = (Uninstrumented f, s)"
  by (simp add: instrument_def)

section \<open>What an invocation leaves unchanged\<close>

lemma map_update_same:
  "(\<And>x. g (f x) = g x) \<Longrightarrow> map g (xs[w := f (xs ! w)]) = map g xs"
  by (cases "w < length xs") (simp_all add: map_update list_update_same_conv list_update_beyond)

lemma static_logEvent [simp]: "static (logEvent e s) = static s"
  by (simp add: static_def logEvent_def)

lemma static_updWrapper_contexts [simp]:
  "static (updWrapper w (\<lambda>wr. wr\<lparr>contexts := g wr\<rparr>) s) = static s"
  by (simp add: static_def updWrapper_def map_update_same)

lemma static_setTop [simp]: "static (setTop w c s) = static s"
  by (simp add: setTop_def)

lemma static_pushContext [simp]: "static (pushContext w c s) = static s"
  by (simp add: pushContext_def)

lemma static_popContext [simp]: "static (popContext w s) = static s"
  by (simp add: popContext_def)

lemma static_flags [simp]: "static (s\<lparr>flags := fl\<rparr>) = static s"
  by (simp add: static_def)

lemma onExit_trans:
  "onExit (\<lambda>s'. static s' = static s1) r \<Longrightarrow> static s1 = static s \<Longrightarrow>
   onExit (\<lambda>s'. static s' = static s) r"
  by (cases r) simp_all

lemma static_invocation:
  "onExit (\<lambda>s'. static s' = static s) (invokeHandlers n w s)"
  "onExit (\<lambda>s'. static s' = static s) (map_outcome snd (instrumentedCallback n w' this args s))"
  "onExit (\<lambda>s'. static s' = static s) (runHandler n w cs s)"
proof (induction n w s and n w' this args s and n w cs s
       rule: invokeHandlers_instrumentedCallback_runHandler.induct)
  case (1 n w s)
  show ?case
    apply (subst invokeHandlers.simps)
    using "1.IH"
    apply (auto simp: Let_def split: nat.splits intro: onExit_trans)
    done
next
  case (2 n w this args s)
  show ?case
    apply (subst instrumentedCallback.simps)
    using "2.IH"
    apply (auto simp: Let_def split: outcome.splits option.splits)
    done
next
  case (3 n w s)
  show ?case by simp
next
  case (4 n w e cs s)
  then show ?case by simp
next
  case (5 n w cs s)
  then show ?case by (auto split: outcome.splits)
next
  case (6 n w w' this args cs s)
  then show ?case by (auto split: outcome.splits)
next
  case (7 n w g b cs s)
  then show ?case by (auto split: outcome.splits)
qed

lemma topRel_refl: "topRel f c c"
  by (simp add: topRel_def)

lemma topRel_trans: "topRel f c c' \<Longrightarrow> topRel f c' c'' \<Longrightarrow> topRel f c c''"
  by (auto simp: topRel_def)

lemma stackRel_refl: "stackRel w ws ws"
  unfolding stackRel_def
  by (rule exI [of _ "contexts (ws ! w)"]) (simp add: topRel_refl)

lemma stackRel_length: "stackRel w ws ws' \<Longrightarrow> length ws' = length ws"
  by (auto simp: stackRel_def)

lemma stackRel_trans:
  assumes "stackRel w ws ws'" and "stackRel w ws' ws''" and "w < length ws"
  shows "stackRel w ws ws''"
proof -
  from assms(1) obtain cs' where 1: "ws' = ws[w := (ws ! w)\<lparr>contexts := cs'\<rparr>]"
    "length cs' = length (contexts (ws ! w))" "butlast cs' = butlast (contexts (ws ! w))"
    "contexts (ws ! w) \<noteq> [] \<longrightarrow>
       topRel (originalFunction (ws ! w)) (last (contexts (ws ! w))) (last cs')"
    by (auto simp: stackRel_def)
  have w': "ws' ! w = (ws ! w)\<lparr>contexts := cs'\<rparr>"
    using 1(1) assms(3) by simp
  from assms(2) obtain cs'' where 2: "ws'' = ws'[w := (ws' ! w)\<lparr>contexts := cs''\<rparr>]"
    "length cs'' = length cs'" "butlast cs'' = butlast cs'"
    "cs' \<noteq> [] \<longrightarrow> topRel (originalFunction (ws ! w)) (last cs') (last cs'')"
    by (auto simp: stackRel_def w')
  have "ws'' = ws[w := (ws ! w)\<lparr>contexts := cs''\<rparr>]"
    using 1(1) 2(1) w' by simp
  moreover have "contexts (ws ! w) \<noteq> [] \<longrightarrow>
       topRel (originalFunction (ws ! w)) (last (contexts (ws ! w))) (last cs'')"
    using 1(2,4) 2(4) by (auto intro: topRel_trans)
  ultimately show ?thesis
    unfolding stackRel_def using 1(2,3) 2(2,3) by auto
qed

lemma wrappers_logEvent [simp]: "wrappers (logEvent e s) = wrappers s"
  by (simp add: logEvent_def)

lemma wrappers_setTop:
  "wrappers (setTop w c s) =
     (wrappers s)[w := (wrappers s ! w)\<lparr>contexts :=
        (contexts (wrappers s ! w))[length (contexts (wrappers s ! w)) - 1 := c]\<rparr>]"
  by (simp add: setTop_def updWrapper_def)

lemma wrappers_pushContext:
  "wrappers (pushContext w c s) =
     (wrappers s)[w := (wrappers s ! w)\<lparr>contexts := contexts (wrappers s ! w) @ [c]\<rparr>]"
  by (simp add: pushContext_def updWrapper_def)

lemma wrappers_popContext:
  "wrappers (popContext w s) =
     (wrappers s)[w := (wrappers s ! w)\<lparr>contexts := butlast (contexts (wrappers s ! w))\<rparr>]"
  by (simp add: popContext_def updWrapper_def)

lemma butlast_update_last [simp]: "butlast (xs[length xs - Suc 0 := x]) = butlast xs"
  by (induction xs rule: rev_induct) simp_all

lemma last_update_last [simp]: "xs \<noteq> [] \<Longrightarrow> last (xs[length xs - Suc 0 := x]) = x"
  by (induction xs rule: rev_induct) simp_all

lemma stackRel_setTop:
  "contexts (wrappers s ! w) \<noteq> [] \<Longrightarrow>
   topRel (originalFunction (wrappers s ! w)) (last (contexts (wrappers s ! w))) c \<Longrightarrow>
   stackRel w (wrappers s) (wrappers (setTop w c s))"
  unfolding stackRel_def wrappers_setTop
  by (rule exI [of _ "(contexts (wrappers s ! w))[length (contexts (wrappers s ! w)) - 1 := c]"])
     simp

lemma stackRel_push_pop:
  assumes "w < length ws"
    and "stackRel w (ws[w := (ws ! w)\<lparr>contexts := contexts (ws ! w) @ [c0]\<rparr>]) ws2"
  shows "ws2[w := (ws2 ! w)\<lparr>contexts := butlast (contexts (ws2 ! w))\<rparr>] = ws"
    and "contexts (ws2 ! w) \<noteq> []"
    and "topRel (originalFunction (ws ! w)) c0 (last (contexts (ws2 ! w)))"
proof -
  let ?ws1 = "ws[w := (ws ! w)\<lparr>contexts := contexts (ws ! w) @ [c0]\<rparr>]"
  have w1: "?ws1 ! w = (ws ! w)\<lparr>contexts := contexts (ws ! w) @ [c0]\<rparr>"
    using assms(1) by simp
  from assms(2) obtain cs' where 0: "ws2 = ?ws1[w := (?ws1 ! w)\<lparr>contexts := cs'\<rparr>]"
    "length cs' = length (contexts (?ws1 ! w))"
    "butlast cs' = butlast (contexts (?ws1 ! w))"
    "contexts (?ws1 ! w) \<noteq> [] \<longrightarrow>
       topRel (originalFunction (?ws1 ! w)) (last (contexts (?ws1 ! w))) (last cs')"
    unfolding stackRel_def by blast
  have 1: "ws2 = ws[w := (ws ! w)\<lparr>contexts := cs'\<rparr>]"
    "length cs' = Suc (length (contexts (ws ! w)))" "butlast cs' = contexts (ws ! w)"
    "topRel (originalFunction (ws ! w)) c0 (last cs')"
    using 0 unfolding w1 by simp_all
  have w2: "ws2 ! w = (ws ! w)\<lparr>contexts := cs'\<rparr>"
    using 1(1) assms(1) by simp
  show "ws2[w := (ws2 ! w)\<lparr>contexts := butlast (contexts (ws2 ! w))\<rparr>] = ws"
    unfolding w2 using 1(1,3) by (simp add: list_update_same_conv assms(1))
  show "contexts (ws2 ! w) \<noteq> []"
    unfolding w2 using 1(2) by auto
  show "topRel (originalFunction (ws ! w)) c0 (last (contexts (ws2 ! w)))"
    unfolding w2 using 1(4) by simp
qed

lemma stackRel_seq:
  assumes "w < length ws" and "stackRel w ws ws1"
    and "w < length ws1 \<longrightarrow> stackRel w ws1 ws2"
  shows "stackRel w ws ws2"
proof -
  have "w < length ws1"
    using assms(1) stackRel_length [OF assms(2)] by simp
  with assms(3) have "stackRel w ws1 ws2" by simp
  with assms(2) show ?thesis
    using assms(1) by (rule stackRel_trans)
qed

lemma stack_invocation:
  "w < length (wrappers s) \<longrightarrow>
     (\<forall>s'. invokeHandlers n w s = Returned s' \<longrightarrow> stackRel w (wrappers s) (wrappers s'))"
  "\<forall>v s'. instrumentedCallback n w' this args s = Returned (v, s') \<longrightarrow>
     wrappers s' = wrappers s \<and> v = originalFunction (wrappers s ! w') this args"
  "w < length (wrappers s) \<longrightarrow>
     (\<forall>s'. runHandler n w cs s = Returned s' \<longrightarrow> stackRel w (wrappers s) (wrappers s'))"
proof (induction n w s and n w' this args s and n w cs s
       rule: invokeHandlers_instrumentedCallback_runHandler.induct)
  case (1 n w s)
  show ?case
  proof (intro impI allI)
    fix s'
    assume w: "w < length (wrappers s)" and r: "invokeHandlers n w s = Returned s'"
    let ?wr = "wrappers s ! w"
    let ?c = "last (contexts ?wr)"
    from r have ne: "contexts ?wr \<noteq> []"
      by (subst (asm) invokeHandlers.simps) (auto split: if_splits)
    have step: "topRel (originalFunction ?wr) ?c c \<Longrightarrow>
                stackRel w (wrappers (setTop w c s)) (wrappers s') \<Longrightarrow>
                stackRel w (wrappers s) (wrappers s')" for c
      using stackRel_trans [OF stackRel_setTop [OF ne] _ w] by blast
    have len: "w < length (wrappers (setTop w c s))" for c
      using w by (simp add: wrappers_setTop)
    consider (agg) "aggregateCount ?c \<noteq> 0"
      | (inst) "aggregateCount ?c = 0" "handlerCount ?c \<noteq> 0"
      | (orig) "aggregateCount ?c = 0" "handlerCount ?c = 0"
      by auto
    then show "stackRel w (wrappers s) (wrappers s')"
    proof cases
      case agg
      let ?i = "aggregateCount ?c - 1"
      let ?s1 = "setTop w (?c\<lparr>aggregateCount := ?i\<rparr>) s"
      from r agg ne obtain m where m: "n = Suc m"
        "?i < length (arrays ?s1 (aggregateHandlers ?wr))"
        "runHandler m w (body (arrays ?s1 (aggregateHandlers ?wr) ! ?i))
           (logEvent (AggregateCall w (length (contexts ?wr) - 1) ?i) ?s1) = Returned s'"
        by (subst (asm) invokeHandlers.simps) (auto simp: Let_def split: if_splits nat.splits)
      have "stackRel w (wrappers ?s1) (wrappers s')"
        using "1.IH"(1) [OF ne refl refl refl agg refl refl refl m(2) m(1)] m(3) len by simp
      then show ?thesis
        by (rule step [rotated]) (simp add: topRel_def)
    next
      case inst
      let ?i = "handlerCount ?c - 1"
      let ?s1 = "setTop w (?c\<lparr>handlerCount := ?i\<rparr>) s"
      from r inst ne obtain m where m: "n = Suc m" "?i < length (handlers ?wr)"
        "runHandler m w (body (handlers ?wr ! ?i))
           (logEvent (InstanceCall w (length (contexts ?wr) - 1) ?i) ?s1) = Returned s'"
        by (subst (asm) invokeHandlers.simps) (auto simp: Let_def split: if_splits nat.splits)
      have "\<not> aggregateCount ?c \<noteq> 0"
        using inst by simp
      then have "stackRel w (wrappers ?s1) (wrappers s')"
        using "1.IH"(2) [OF ne refl refl refl _ inst(2) refl refl refl m(2) m(1)] m(3) len by simp
      then show ?thesis
        by (rule step [rotated]) (simp add: topRel_def)
    next
      case orig
      let ?c' = "?c\<lparr>returnSlot := Some (originalFunction ?wr (receiver ?c) (arguments ?c))\<rparr>"
      let ?s0 = "logEvent (OriginalCall w (length (contexts ?wr) - 1) (receiver ?c) (arguments ?c)) s"
      from r orig ne have "s' = setTop w ?c' ?s0"
        by (subst (asm) invokeHandlers.simps) (auto simp: Let_def)
      moreover have "stackRel w (wrappers ?s0) (wrappers (setTop w ?c' ?s0))"
        by (rule stackRel_setTop) (simp_all add: ne topRel_def)
      ultimately show ?thesis
        by simp
    qed
  qed
next
  case (2 n w this args s)
  show ?case
  proof (intro impI allI)
    fix v s'
    assume r: "instrumentedCallback n w this args s = Returned (v, s')"
    let ?wr = "wrappers s ! w"
    let ?c0 = "\<lparr>aggregateCount = length (arrays s (aggregateHandlers ?wr)),
                handlerCount = length (handlers ?wr),
                receiver = this, arguments = args, returnSlot = None\<rparr>"
    from r have w: "w < length (wrappers s)"
      by (subst (asm) instrumentedCallback.simps) (auto split: if_splits)
    show "wrappers s' = wrappers s \<and> v = originalFunction (wrappers s ! w) this args"
    proof (cases "length (arrays s (aggregateHandlers ?wr)) = 0 \<and> length (handlers ?wr) = 0")
      case True
      with r w show ?thesis
        by (subst (asm) instrumentedCallback.simps) (auto simp: Let_def)
    next
      case False
      with r w obtain s2 where s2: "invokeHandlers n w (pushContext w ?c0 s) = Returned s2"
        "contexts (wrappers s2 ! w) \<noteq> []"
        "returnSlot (last (contexts (wrappers s2 ! w))) = Some v"
        "s' = popContext w s2"
        by (subst (asm) instrumentedCallback.simps)
           (auto simp: Let_def split: outcome.splits if_splits option.splits)
      have "\<not> length (wrappers s) \<le> w"
        using w by simp
      from "2.IH" [OF this refl False] s2(1) w
      have rel: "stackRel w ((wrappers s)[w := ?wr\<lparr>contexts := contexts ?wr @ [?c0]\<rparr>]) (wrappers s2)"
        by (simp add: wrappers_pushContext)
      from stackRel_push_pop [OF w rel] s2(3,4) show ?thesis
        by (auto simp: wrappers_popContext topRel_def)
    qed
  qed
next
  case (3 n w s)
  show ?case by (simp add: stackRel_refl)
next
  case (4 n w e cs s)
  then show ?case by simp
next
  case (5 n w cs s)
  show ?case
  proof (intro impI allI)
    fix s'
    assume w: "w < length (wrappers s)" and r: "runHandler n w (Proceed # cs) s = Returned s'"
    from r obtain s1 where s1: "invokeHandlers n w s = Returned s1"
      "runHandler n w cs s1 = Returned s'"
      by (auto split: outcome.splits)
    have "stackRel w (wrappers s) (wrappers s1)"
      using "5.IH"(1) s1(1) w by simp
    moreover have "w < length (wrappers s1) \<longrightarrow> stackRel w (wrappers s1) (wrappers s')"
      using "5.IH"(2) [OF s1(1)] s1(2) by simp
    ultimately show "stackRel w (wrappers s) (wrappers s')"
      by (rule stackRel_seq [OF w])
  qed
next
  case (6 n w w' this args cs s)
  show ?case
  proof (intro impI allI)
    fix s'
    assume w: "w < length (wrappers s)"
      and r: "runHandler n w (Invoke w' this args # cs) s = Returned s'"
    from r obtain v s1 where s1: "instrumentedCallback n w' this args s = Returned (v, s1)"
      "runHandler n w cs s1 = Returned s'"
      by (simp split: outcome.splits prod.splits)
    have same: "wrappers s1 = wrappers s"
      using "6.IH"(1) s1(1) by simp
    show "stackRel w (wrappers s) (wrappers s')"
      using "6.IH"(2) [OF s1(1) refl] s1(2) w by (simp add: same)
  qed
next
  case (7 n w g b cs s)
  show ?case
  proof (intro impI allI)
    fix s'
    assume w: "w < length (wrappers s)" and r: "runHandler n w (Once g b # cs) s = Returned s'"
    show "stackRel w (wrappers s) (wrappers s')"
    proof (cases "g \<in> set (flags s)")
      case True
      with r w "7.IH"(1) show ?thesis by simp
    next
      case False
      with r obtain s1 where s1: "runHandler n w b (s\<lparr>flags := g # flags s\<rparr>) = Returned s1"
        "runHandler n w cs s1 = Returned s'"
        by (auto split: outcome.splits)
      have "stackRel w (wrappers s) (wrappers s1)"
        using "7.IH"(2) [OF False] s1(1) w by simp
      moreover have "w < length (wrappers s1) \<longrightarrow> stackRel w (wrappers s1) (wrappers s')"
        using "7.IH"(3) [OF False s1(1)] s1(2) by simp
      ultimately show ?thesis
        by (rule stackRel_seq [OF w])
    qed
  qed
qed

section \<open>Which calls of the original function an invocation makes\<close>

lemma calledOriginal_simps [simp]:
  "calledOriginal w d [] = False"
  "calledOriginal w d (xs @ ys) = (calledOriginal w d xs \<or> calledOriginal w d ys)"
  "calledOriginal w d (OriginalCall w' d' r a # xs) = ((w' = w \<and> d' = d) \<or> calledOriginal w d xs)"
  "calledOriginal w d (AggregateCall w' d' i # xs) = calledOriginal w d xs"
  "calledOriginal w d (InstanceCall w' d' i # xs) = calledOriginal w d xs"
  "calledOriginal w d (ContextPush w' # xs) = calledOriginal w d xs"
  "calledOriginal w d (ContextPop w' # xs) = calledOriginal w d xs"
  "calledOriginal w d (Emitted k # xs) = calledOriginal w d xs"
  by (simp_all add: calledOriginal_def)

lemma callsFor_simps [simp]:
  "callsFor w d [] = False"
  "callsFor w d (xs @ ys) = (callsFor w d xs \<or> callsFor w d ys)"
  "callsFor w d (OriginalCall w' d' r a # xs) = ((w' = w \<and> d' = d) \<or> callsFor w d xs)"
  "callsFor w d (AggregateCall w' d' i # xs) = ((w' = w \<and> d' = d) \<or> callsFor w d xs)"
  "callsFor w d (InstanceCall w' d' i # xs) = ((w' = w \<and> d' = d) \<or> callsFor w d xs)"
  "callsFor w d (ContextPush w' # xs) = callsFor w d xs"
  "callsFor w d (ContextPop w' # xs) = callsFor w d xs"
  "callsFor w d (Emitted k # xs) = callsFor w d xs"
  by (simp_all add: callsFor_def)

lemma heights_logEvent [simp]: "heights (logEvent e s) = heights s"
  by (simp add: heights_def)

lemma heights_flags [simp]: "heights (s\<lparr>flags := fl\<rparr>) = heights s"
  by (simp add: heights_def)

lemma heights_stackRel: "stackRel w (wrappers s) (wrappers s') \<Longrightarrow> heights s' = heights s"
proof -
  assume "stackRel w (wrappers s) (wrappers s')"
  then obtain cs' where 1: "wrappers s' = (wrappers s)[w := (wrappers s ! w)\<lparr>contexts := cs'\<rparr>]"
    "length cs' = length (contexts (wrappers s ! w))"
    unfolding stackRel_def by blast
  show ?thesis
    unfolding heights_def 1(1)
    by (cases "w < length (wrappers s)")
       (simp_all add: map_update list_update_same_conv list_update_beyond 1(2))
qed

lemma heights_wrappers: "wrappers s' = wrappers s \<Longrightarrow> heights s' = heights s"
  by (simp add: heights_def)

lemma heights_nth: "w < length (wrappers s) \<Longrightarrow> heights s ! w = length (contexts (wrappers s ! w))"
  by (simp add: heights_def)

lemma length_heights [simp]: "length (heights s) = length (wrappers s)"
  by (simp add: heights_def)

lemma heights_pushContext:
  "w < length (wrappers s) \<Longrightarrow>
   heights (pushContext w c s) = (heights s)[w := Suc (heights s ! w)]"
  by (simp add: heights_def wrappers_pushContext map_update)

lemma trace_logEvent [simp]: "trace (logEvent e s) = trace s @ [e]"
  by (simp add: logEvent_def)

lemma trace_setTop [simp]: "trace (setTop w c s) = trace s"
  by (simp add: setTop_def updWrapper_def)

lemma trace_pushContext [simp]: "trace (pushContext w c s) = trace s @ [ContextPush w]"
  by (simp add: pushContext_def updWrapper_def logEvent_def)

lemma trace_popContext [simp]: "trace (popContext w s) = trace s @ [ContextPop w]"
  by (simp add: popContext_def updWrapper_def logEvent_def)

lemma ownCalls_refl: "ownCalls w s s"
  by (simp add: ownCalls_def)

lemma ownCalls_prefix:
  assumes "trace s1 = trace s @ pre"
    and "\<And>w' d. callsFor w' d pre \<Longrightarrow> w' = w \<and> Suc d = heights s ! w"
    and "\<And>d. \<not> calledOriginal w d pre"
    and "heights s1 = heights s" and "ownCalls w s1 s'"
  shows "ownCalls w s s'"
proof -
  from assms(5) obtain ev where ev: "trace s' = trace s1 @ ev"
    "\<And>w' d. callsFor w' d ev \<Longrightarrow> inFlight (heights s) w' d \<Longrightarrow>
       w' = w \<and> Suc d = heights s ! w"
    "\<And>d. calledOriginal w d ev \<Longrightarrow> Suc d = heights s ! w \<Longrightarrow>
       returnSlot (last (contexts (wrappers s' ! w))) \<noteq> None"
    unfolding ownCalls_def assms(4) by blast
  have "trace s' = trace s @ pre @ ev"
    by (simp add: ev(1) assms(1))
  moreover have "\<forall>w' d. callsFor w' d (pre @ ev) \<longrightarrow> inFlight (heights s) w' d \<longrightarrow>
       w' = w \<and> Suc d = heights s ! w"
    using ev(2) assms(2) unfolding callsFor_simps by blast
  moreover have "\<forall>d. calledOriginal w d (pre @ ev) \<longrightarrow> Suc d = heights s ! w \<longrightarrow>
       returnSlot (last (contexts (wrappers s' ! w))) \<noteq> None"
    using ev(3) assms(3) unfolding calledOriginal_simps by blast
  ultimately show ?thesis
    unfolding ownCalls_def by blast
qed

lemma slot_kept:
  assumes "stackRel w ws ws'" and "w < length ws" and "contexts (ws ! w) \<noteq> []"
    and "returnSlot (last (contexts (ws ! w))) \<noteq> None"
  shows "returnSlot (last (contexts (ws' ! w))) \<noteq> None"
proof -
  from assms(1) obtain cs' where 1: "ws' = ws[w := (ws ! w)\<lparr>contexts := cs'\<rparr>]"
    "contexts (ws ! w) \<noteq> [] \<longrightarrow>
       topRel (originalFunction (ws ! w)) (last (contexts (ws ! w))) (last cs')"
    unfolding stackRel_def by blast
  have "ws' ! w = (ws ! w)\<lparr>contexts := cs'\<rparr>"
    using 1(1) assms(2) by simp
  then show ?thesis
    using 1(2) assms(3,4) by (auto simp: topRel_def)
qed

lemma ownCalls_seq:
  assumes "ownCalls w s s1" and "ownCalls w s1 s2"
    and "stackRel w (wrappers s) (wrappers s1)" and "stackRel w (wrappers s1) (wrappers s2)"
    and w: "w < length (wrappers s)"
  shows "ownCalls w s s2"
proof -
  have h1: "heights s1 = heights s"
    by (rule heights_stackRel [OF assms(3)])
  have w1: "w < length (wrappers s1)"
    using w stackRel_length [OF assms(3)] by simp
  from assms(1) obtain ev1 where ev1: "trace s1 = trace s @ ev1"
    "\<And>w' d. callsFor w' d ev1 \<Longrightarrow> inFlight (heights s) w' d \<Longrightarrow>
       w' = w \<and> Suc d = heights s ! w"
    "\<And>d. calledOriginal w d ev1 \<Longrightarrow> Suc d = heights s ! w \<Longrightarrow>
       returnSlot (last (contexts (wrappers s1 ! w))) \<noteq> None"
    unfolding ownCalls_def by blast
  from assms(2) obtain ev2 where ev2: "trace s2 = trace s1 @ ev2"
    "\<And>w' d. callsFor w' d ev2 \<Longrightarrow> inFlight (heights s) w' d \<Longrightarrow>
       w' = w \<and> Suc d = heights s ! w"
    "\<And>d. calledOriginal w d ev2 \<Longrightarrow> Suc d = heights s ! w \<Longrightarrow>
       returnSlot (last (contexts (wrappers s2 ! w))) \<noteq> None"
    unfolding ownCalls_def h1 by blast
  have "returnSlot (last (contexts (wrappers s2 ! w))) \<noteq> None"
    if c: "calledOriginal w d (ev1 @ ev2)" and d: "Suc d = heights s ! w" for d
  proof (cases "calledOriginal w d ev1")
    case True
    from ev1(3) [OF True d] have 1: "returnSlot (last (contexts (wrappers s1 ! w))) \<noteq> None" .
    have "contexts (wrappers s1 ! w) \<noteq> []"
      using d h1 heights_nth [OF w1] by auto
    from slot_kept [OF assms(4) w1 this 1] show ?thesis .
  next
    case False
    with c have "calledOriginal w d ev2" by simp
    from ev2(3) [OF this d] show ?thesis .
  qed
  moreover have "\<forall>w' d. callsFor w' d (ev1 @ ev2) \<longrightarrow> inFlight (heights s) w' d \<longrightarrow>
       w' = w \<and> Suc d = heights s ! w"
    using ev1(2) ev2(2) unfolding callsFor_simps by blast
  moreover have "trace s2 = trace s @ ev1 @ ev2"
    by (simp add: ev1(1) ev2(1))
  ultimately show ?thesis
    unfolding ownCalls_def by blast
qed

lemma calledOriginal_callsFor: "calledOriginal w d ev \<Longrightarrow> callsFor w d ev"
  by (induction ev) (auto simp: calledOriginal_def callsFor_def elim: isOriginalCallOf.elims)

lemma nested_then_own:
  assumes "nestedCalls s s1" and "wrappers s1 = wrappers s" and "ownCalls w s1 s2"
    and w: "w < length (wrappers s)"
  shows "ownCalls w s s2"
proof -
  have h1: "heights s1 = heights s"
    by (rule heights_wrappers [OF assms(2)])
  from assms(1) obtain ev1 where ev1: "trace s1 = trace s @ ev1"
    "\<And>w' d. callsFor w' d ev1 \<Longrightarrow> \<not> inFlight (heights s) w' d"
    unfolding nestedCalls_def by blast
  from assms(3) obtain ev2 where ev2: "trace s2 = trace s1 @ ev2"
    "\<And>w' d. callsFor w' d ev2 \<Longrightarrow> inFlight (heights s) w' d \<Longrightarrow>
       w' = w \<and> Suc d = heights s ! w"
    "\<And>d. calledOriginal w d ev2 \<Longrightarrow> Suc d = heights s ! w \<Longrightarrow>
       returnSlot (last (contexts (wrappers s2 ! w))) \<noteq> None"
    unfolding ownCalls_def h1 by blast
  have no: "\<not> calledOriginal w d ev1" if d: "Suc d = heights s ! w" for d
  proof
    assume "calledOriginal w d ev1"
    from ev1(2) [OF calledOriginal_callsFor [OF this]] show False
      using d w by (simp add: inFlight_def)
  qed
  have "\<forall>w' d. callsFor w' d (ev1 @ ev2) \<longrightarrow> inFlight (heights s) w' d \<longrightarrow>
       w' = w \<and> Suc d = heights s ! w"
    using ev1(2) ev2(2) unfolding callsFor_simps by blast
  moreover have "\<forall>d. calledOriginal w d (ev1 @ ev2) \<longrightarrow> Suc d = heights s ! w \<longrightarrow>
       returnSlot (last (contexts (wrappers s2 ! w))) \<noteq> None"
    using no ev2(3) unfolding calledOriginal_simps by blast
  moreover have "trace s2 = trace s @ ev1 @ ev2"
    by (simp add: ev1(1) ev2(1))
  ultimately show ?thesis
    unfolding ownCalls_def by blast
qed

lemma heights_setTop [simp]: "heights (setTop w c s) = heights s"
  unfolding heights_def wrappers_setTop
  by (cases "w < length (wrappers s)")
     (simp_all add: map_update list_update_same_conv list_update_beyond)

lemma ownCalls_original:
  assumes w: "w < length (wrappers s)" and ne: "contexts (wrappers s ! w) \<noteq> []"
    and c': "returnSlot c' \<noteq> None"
  shows "ownCalls w s
           (setTop w c' (logEvent (OriginalCall w (length (contexts (wrappers s ! w)) - 1) r a) s))"
proof -
  let ?d = "length (contexts (wrappers s ! w)) - 1"
  let ?s' = "setTop w c' (logEvent (OriginalCall w ?d r a) s)"
  have "wrappers ?s' ! w =
          (wrappers s ! w)\<lparr>contexts := (contexts (wrappers s ! w))[?d := c']\<rparr>"
    using w by (simp add: wrappers_setTop)
  then have slot: "returnSlot (last (contexts (wrappers ?s' ! w))) \<noteq> None"
    using ne c' by simp
  have d: "Suc ?d = heights s ! w"
    using ne by (simp add: heights_nth [OF w])
  have "trace ?s' = trace s @ [OriginalCall w ?d r a]"
    by simp
  moreover have "\<forall>w' d. callsFor w' d [OriginalCall w ?d r a] \<longrightarrow>
      inFlight (heights s) w' d \<longrightarrow> w' = w \<and> Suc d = heights s ! w"
    using d by auto
  moreover have "\<forall>d. calledOriginal w d [OriginalCall w ?d r a] \<longrightarrow> Suc d = heights s ! w \<longrightarrow>
      returnSlot (last (contexts (wrappers ?s' ! w))) \<noteq> None"
    using slot by simp
  ultimately show ?thesis
    unfolding ownCalls_def by blast
qed

lemma nestedCalls_fast:
  "nestedCalls s (logEvent (OriginalCall w (length (contexts (wrappers s ! w))) r a) s)"
proof -
  have "\<forall>w' d. callsFor w' d [OriginalCall w (length (contexts (wrappers s ! w))) r a] \<longrightarrow>
      \<not> inFlight (heights s) w' d"
    by (auto simp: inFlight_def heights_def)
  then show ?thesis
    unfolding nestedCalls_def
    by (intro exI [of _ "[OriginalCall w (length (contexts (wrappers s ! w))) r a]"]) simp
qed

lemma nestedCalls_push_pop:
  assumes w: "w < length (wrappers s)" and own: "ownCalls w (pushContext w c s) s2"
  shows "nestedCalls s (popContext w s2)"
proof -
  let ?s0 = "pushContext w c s"
  have h0: "heights ?s0 = (heights s)[w := Suc (heights s ! w)]"
    by (rule heights_pushContext [OF w])
  from own obtain ev where ev: "trace s2 = trace ?s0 @ ev"
    "\<And>w' d. callsFor w' d ev \<Longrightarrow> inFlight (heights ?s0) w' d \<Longrightarrow>
       w' = w \<and> Suc d = heights ?s0 ! w"
    unfolding ownCalls_def by blast
  have "\<not> inFlight (heights s) w' d" if c: "callsFor w' d ev" for w' d
  proof
    assume f: "inFlight (heights s) w' d"
    then have "inFlight (heights ?s0) w' d"
      unfolding h0 inFlight_def by (cases "w' = w") auto
    from ev(2) [OF c this] have "w' = w" "Suc d = heights ?s0 ! w"
      by simp_all
    then have "d = heights s ! w"
      unfolding h0 using w by simp
    with f \<open>w' = w\<close> show False
      by (simp add: inFlight_def)
  qed
  then have "\<forall>w' d. callsFor w' d (ContextPush w # ev @ [ContextPop w]) \<longrightarrow>
      \<not> inFlight (heights s) w' d"
    by simp
  moreover have "trace (popContext w s2) = trace s @ ContextPush w # ev @ [ContextPop w]"
    by (simp add: ev(1))
  ultimately show ?thesis
    unfolding nestedCalls_def by blast
qed

lemma trace_invocation:
  "w < length (wrappers s) \<longrightarrow>
     (\<forall>s'. invokeHandlers n w s = Returned s' \<longrightarrow> ownCalls w s s')"
  "\<forall>v s'. instrumentedCallback n w' this args s = Returned (v, s') \<longrightarrow> nestedCalls s s'"
  "w < length (wrappers s) \<longrightarrow>
     (\<forall>s'. runHandler n w cs s = Returned s' \<longrightarrow> ownCalls w s s')"
proof (induction n w s and n w' this args s and n w cs s
       rule: invokeHandlers_instrumentedCallback_runHandler.induct)
  case (1 n w s)
  show ?case
  proof (intro impI allI)
    fix s'
    assume w: "w < length (wrappers s)" and r: "invokeHandlers n w s = Returned s'"
    let ?wr = "wrappers s ! w"
    let ?c = "last (contexts ?wr)"
    from r have ne: "contexts ?wr \<noteq> []"
      by (subst (asm) invokeHandlers.simps) (auto split: if_splits)
    have len: "w < length (wrappers (setTop w c s))" for c
      using w by (simp add: wrappers_setTop)
    consider (agg) "aggregateCount ?c \<noteq> 0"
      | (inst) "aggregateCount ?c = 0" "handlerCount ?c \<noteq> 0"
      | (orig) "aggregateCount ?c = 0" "handlerCount ?c = 0"
      by auto
    then show "ownCalls w s s'"
    proof cases
      case agg
      let ?i = "aggregateCount ?c - 1"
      let ?s1 = "setTop w (?c\<lparr>aggregateCount := ?i\<rparr>) s"
      let ?e = "AggregateCall w (length (contexts ?wr) - 1) ?i"
      from r agg ne obtain m where m: "n = Suc m"
        "?i < length (arrays ?s1 (aggregateHandlers ?wr))"
        "runHandler m w (body (arrays ?s1 (aggregateHandlers ?wr) ! ?i))
           (logEvent ?e ?s1) = Returned s'"
        by (subst (asm) invokeHandlers.simps) (auto simp: Let_def split: if_splits nat.splits)
      have "ownCalls w (logEvent ?e ?s1) s'"
        using "1.IH"(1) [OF ne refl refl refl agg refl refl refl m(2) m(1)] m(3) len by simp
      then show ?thesis
        by (rule ownCalls_prefix [where pre = "[?e]", rotated 4])
           (use ne in \<open>simp_all add: heights_nth [OF w]\<close>)
    next
      case inst
      let ?i = "handlerCount ?c - 1"
      let ?s1 = "setTop w (?c\<lparr>handlerCount := ?i\<rparr>) s"
      let ?e = "InstanceCall w (length (contexts ?wr) - 1) ?i"
      from r inst ne obtain m where m: "n = Suc m" "?i < length (handlers ?wr)"
        "runHandler m w (body (handlers ?wr ! ?i)) (logEvent ?e ?s1) = Returned s'"
        by (subst (asm) invokeHandlers.simps) (auto simp: Let_def split: if_splits nat.splits)
      have "\<not> aggregateCount ?c \<noteq> 0"
        using inst by simp
      then have "ownCalls w (logEvent ?e ?s1) s'"
        using "1.IH"(2) [OF ne refl refl refl _ inst(2) refl refl refl m(2) m(1)] m(3) len by simp
      then show ?thesis
        by (rule ownCalls_prefix [where pre = "[?e]", rotated 4])
           (use ne in \<open>simp_all add: heights_nth [OF w]\<close>)
    next
      case orig
      let ?c' = "?c\<lparr>returnSlot := Some (originalFunction ?wr (receiver ?c) (arguments ?c))\<rparr>"
      let ?s0 = "logEvent (OriginalCall w (length (contexts ?wr) - 1) (receiver ?c) (arguments ?c)) s"
      from r orig ne have "s' = setTop w ?c' ?s0"
        by (subst (asm) invokeHandlers.simps) (auto simp: Let_def)
      then show ?thesis
        using ownCalls_original [OF w ne, of ?c'] by simp
    qed
  qed
next
  case (2 n w this args s)
  show ?case
  proof (intro impI allI)
    fix v s'
    assume r: "instrumentedCallback n w this args s = Returned (v, s')"
    let ?wr = "wrappers s ! w"
    let ?c0 = "\<lparr>aggregateCount = length (arrays s (aggregateHandlers ?wr)),
                handlerCount = length (handlers ?wr),
                receiver = this, arguments = args, returnSlot = None\<rparr>"
    from r have w: "w < length (wrappers s)"
      by (subst (asm) instrumentedCallback.simps) (auto split: if_splits)
    show "nestedCalls s s'"
    proof (cases "length (arrays s (aggregateHandlers ?wr)) = 0 \<and> length (handlers ?wr) = 0")
      case True
      with r w have "s' = logEvent (OriginalCall w (length (contexts ?wr)) this args) s"
        by (subst (asm) instrumentedCallback.simps) (auto simp: Let_def)
      then show ?thesis
        by (simp only: nestedCalls_fast)
    next
      case False
      with r w obtain s2 where s2: "invokeHandlers n w (pushContext w ?c0 s) = Returned s2"
        "s' = popContext w s2"
        by (subst (asm) instrumentedCallback.simps)
           (auto simp: Let_def split: outcome.splits if_splits option.splits)
      have "\<not> length (wrappers s) \<le> w"
        using w by simp
      from "2.IH" [OF this refl False] s2(1) w
      have "ownCalls w (pushContext w ?c0 s) s2"
        by (simp add: wrappers_pushContext)
      from nestedCalls_push_pop [OF w this] show ?thesis
        by (simp add: s2(2))
    qed
  qed
next
  case (3 n w s)
  show ?case by (simp add: ownCalls_refl)
next
  case (4 n w e cs s)
  show ?case
  proof (intro impI allI)
    fix s'
    assume w: "w < length (wrappers s)" and r: "runHandler n w (Emit e # cs) s = Returned s'"
    have "ownCalls w (logEvent (Emitted e) s) s'"
      using "4.IH" w r by simp
    then show "ownCalls w s s'"
      by (rule ownCalls_prefix [where pre = "[Emitted e]", rotated 4]) simp_all
  qed
next
  case (5 n w cs s)
  show ?case
  proof (intro impI allI)
    fix s'
    assume w: "w < length (wrappers s)" and r: "runHandler n w (Proceed # cs) s = Returned s'"
    from r obtain s1 where s1: "invokeHandlers n w s = Returned s1"
      "runHandler n w cs s1 = Returned s'"
      by (auto split: outcome.splits)
    have st1: "stackRel w (wrappers s) (wrappers s1)"
      using stack_invocation(1) s1(1) w by blast
    have w1: "w < length (wrappers s1)"
      using w stackRel_length [OF st1] by simp
    have st2: "stackRel w (wrappers s1) (wrappers s')"
      using stack_invocation(3) s1(2) w1 by blast
    have "ownCalls w s s1"
      using "5.IH"(1) s1(1) w by simp
    moreover have "ownCalls w s1 s'"
      using "5.IH"(2) [OF s1(1)] s1(2) w1 by simp
    ultimately show "ownCalls w s s'"
      using st1 st2 w by (rule ownCalls_seq)
  qed
next
  case (6 n w w' this args cs s)
  show ?case
  proof (intro impI allI)
    fix s'
    assume w: "w < length (wrappers s)"
      and r: "runHandler n w (Invoke w' this args # cs) s = Returned s'"
    from r obtain v s1 where s1: "instrumentedCallback n w' this args s = Returned (v, s1)"
      "runHandler n w cs s1 = Returned s'"
      by (simp split: outcome.splits prod.splits)
    have same: "wrappers s1 = wrappers s"
      using stack_invocation(2) s1(1) by blast
    have "nestedCalls s s1"
      using "6.IH"(1) s1(1) by simp
    moreover have "ownCalls w s1 s'"
      using "6.IH"(2) [OF s1(1) refl] s1(2) w by (simp add: same)
    ultimately show "ownCalls w s s'"
      using same w by (blast intro: nested_then_own)
  qed
next
  case (7 n w g b cs s)
  show ?case
  proof (intro impI allI)
    fix s'
    assume w: "w < length (wrappers s)" and r: "runHandler n w (Once g b # cs) s = Returned s'"
    show "ownCalls w s s'"
    proof (cases "g \<in> set (flags s)")
      case True
      with r w "7.IH"(1) show ?thesis by simp
    next
      case False
      let ?s0 = "s\<lparr>flags := g # flags s\<rparr>"
      from False r obtain s1 where s1: "runHandler n w b ?s0 = Returned s1"
        "runHandler n w cs s1 = Returned s'"
        by (auto split: outcome.splits)
      have w0: "w < length (wrappers ?s0)"
        using w by simp
      have st1: "stackRel w (wrappers ?s0) (wrappers s1)"
        using stack_invocation(3) s1(1) w0 by blast
      have w1: "w < length (wrappers s1)"
        using w stackRel_length [OF st1] by simp
      have st2: "stackRel w (wrappers s1) (wrappers s')"
        using stack_invocation(3) s1(2) w1 by blast
      have "ownCalls w ?s0 s1"
        using "7.IH"(2) [OF False] s1(1) w by simp
      moreover have "ownCalls w s1 s'"
        using "7.IH"(3) [OF False s1(1)] s1(2) w1 by simp
      ultimately have "ownCalls w ?s0 s'"
        using st1 st2 w0 by (rule ownCalls_seq)
      then show ?thesis
        by (rule ownCalls_prefix [where pre = "[]", rotated 4]) simp_all
    qed
  qed
qed

section \<open>The chain of handlers\<close>



lemma arrays_setTop [simp]: "arrays (setTop w c s) = arrays s"
  by (simp add: setTop_def updWrapper_def)

lemma arrays_logEvent [simp]: "arrays (logEvent e s) = arrays s"
  by (simp add: logEvent_def)


lemma length_wrappers_setTop [simp]: "length (wrappers (setTop w c s)) = length (wrappers s)"
  by (simp add: wrappers_setTop)

lemma chainDone_trace [simp]: "chainDone w (s\<lparr>trace := t'\<rparr>) t = chainDone w s t"
  by (simp add: chainDone_def setTop_def updWrapper_def Let_def)

lemma chainDone_logEvent [simp]: "chainDone w (logEvent e s) t = chainDone w s t"
  by (simp add: logEvent_def)

lemma chainDone_upd [simp]: "(chainDone w s t)\<lparr>trace := t'\<rparr> = chainDone w s t'"
  by (simp add: chainDone_def Let_def)

lemma trace_chainDone [simp]: "trace (chainDone w s t) = t"
  by (simp add: chainDone_def Let_def)


lemma rev_upt_Suc: "rev [0..<Suc k] = k # rev [0..<k]"
  by simp




lemma arrays_pushContext [simp]: "arrays (pushContext w c s) = arrays s"
  by (simp add: pushContext_def updWrapper_def logEvent_def)

lemma length_wrappers_pushContext [simp]:
  "length (wrappers (pushContext w c s)) = length (wrappers s)"
  by (simp add: wrappers_pushContext)






lemma onlyEmits_noProceed: "onlyEmits cs \<Longrightarrow> noProceed cs"
  by (induction cs rule: onlyEmits.induct) simp_all

lemma proceedsOnce_callsBackOnce: "proceedsOnce cs \<Longrightarrow> callsBackOnce cs"
  by (induction cs rule: proceedsOnce.induct) (simp_all add: onlyEmits_noProceed)














lemma recursive_handler_callsBackOnce:
  "callsBackOnce [Once 0 [Invoke 0 (Str ''inner'') [Num 10]], Proceed]"
  by simp



section \<open>The claims about invocations\<close>

lemmas evalRules =
  instrumentedCallback.simps invokeHandlers.simps pushContext_def popContext_def setTop_def
  updWrapper_def logEvent_def Let_def eval_nat_numeral

lemma plainExample_eq:
  "plainExample =
     \<lparr>aggregateHandlersByName = [''f'' \<mapsto> 0], arrays = (\<lambda>a. [])(0 := []),
      nextArray = 1, profileHandlersByName = Map.empty, enableProfile = True, dev = True,
      wrappers = [\<lparr>wname = ''f'', originalFunction = addOne, aggregateHandlers = 0,
                   handlers = [], contexts = []\<rparr>],
      flags = [], trace = []\<rparr>"
  by (simp add: plainExample_def initial_def instrument_def ensureAggregateKey_def)

lemma silentExample_eq:
  "silentExample =
     \<lparr>aggregateHandlersByName = [''f'' \<mapsto> 0], arrays = (\<lambda>a. [])(0 := []),
      nextArray = 1, profileHandlersByName = Map.empty, enableProfile = True, dev = True,
      wrappers = [\<lparr>wname = ''f'', originalFunction = addOne, aggregateHandlers = 0,
                   handlers = [Handler 1 [Emit 5]], contexts = []\<rparr>],
      flags = [], trace = []\<rparr>"
  by (simp add: silentExample_def initial_def instrument_def ensureAggregateKey_def updWrapper_def)

lemma recursiveExample_eq:
  "recursiveExample =
     \<lparr>aggregateHandlersByName = [''f'' \<mapsto> 0], arrays = (\<lambda>a. [])(0 := []),
      nextArray = 1, profileHandlersByName = Map.empty, enableProfile = True, dev = True,
      wrappers = [\<lparr>wname = ''f'', originalFunction = addOne, aggregateHandlers = 0,
                   handlers = [Handler 1 [Once 0 [Invoke 0 (Str ''inner'') [Num 10]], Proceed]],
                   contexts = []\<rparr>],
      flags = [], trace = []\<rparr>"
  by (simp add: recursiveExample_def initial_def instrument_def ensureAggregateKey_def
        updWrapper_def)



lemma recursiveInner_reached:
  "invokeHandlers 4 0
     (pushContext 0 \<lparr>aggregateCount = 0, handlerCount = 1, receiver = Str ''outer'',
                      arguments = [Num 1], returnSlot = None\<rparr> recursiveExample) =
     (case runHandler 3 0 [Invoke 0 (Str ''inner'') [Num 10]] recursiveInner of
        Returned s1 \<Rightarrow> runHandler 3 0 [Proceed] s1
      | Threw e s1 \<Rightarrow> Threw e s1
      | OutOfFuel \<Rightarrow> OutOfFuel)"
  by (subst invokeHandlers.simps)
     (simp add: recursiveInner_def recursiveExample_eq pushContext_def setTop_def updWrapper_def
        logEvent_def Let_def eval_nat_numeral split: outcome.splits)




text \<open>
  C2. Let wrapper \<open>w\<close> have at least one handler. If the chain of handlers of an
  invocation unwinds and the result slot of the invocation's context still holds
  the sentinel, the invocation raises the error that a handler did not invoke the
  original function, a handler that made the invocation raises it in turn, and no
  call of the original function was made for this invocation.
\<close>

theorem silent_chain_raises:
  assumes "w < length (wrappers s)"
    and "arrays s (aggregateHandlers (wrappers s ! w)) \<noteq> [] \<or> handlers (wrappers s ! w) \<noteq> []"
    and "invokeHandlers n w
           (pushContext w
              \<lparr>aggregateCount = length (arrays s (aggregateHandlers (wrappers s ! w))),
               handlerCount = length (handlers (wrappers s ! w)),
               receiver = this, arguments = args, returnSlot = None\<rparr> s) = Returned s2"
    and "returnSlot (last (contexts (wrappers s2 ! w))) = None"
  shows "instrumentedCallback n w this args s = Threw HandlerDidNotInvoke (popContext w s2) \<and>
         runHandler n w0 (Invoke w this args # cs) s = Threw HandlerDidNotInvoke (popContext w s2) \<and>
         (\<exists>ev. trace (popContext w s2) = trace s @ ev \<and>
               \<not> calledOriginal w (length (contexts (wrappers s ! w))) ev)"
proof -
  let ?wr = "wrappers s ! w"
  let ?c0 = "\<lparr>aggregateCount = length (arrays s (aggregateHandlers ?wr)),
              handlerCount = length (handlers ?wr),
              receiver = this, arguments = args, returnSlot = None\<rparr>"
  let ?s0 = "pushContext w ?c0 s"
  note w = assms(1)
  have w0: "w < length (wrappers ?s0)"
    using w by (simp add: wrappers_pushContext)
  have "stackRel w (wrappers ?s0) (wrappers s2)"
    using stack_invocation(1) assms(3) w0 by blast
  then have ne: "contexts (wrappers s2 ! w) \<noteq> []"
    using stackRel_push_pop(2) [OF w] by (simp add: wrappers_pushContext)
  have thrown: "instrumentedCallback n w this args s = Threw HandlerDidNotInvoke (popContext w s2)"
    using w assms(2,3,4) ne
    by (subst instrumentedCallback.simps) (auto simp: Let_def)
  have "ownCalls w ?s0 s2"
    using trace_invocation(1) assms(3) w0 by blast
  then obtain ev where ev: "trace s2 = trace ?s0 @ ev"
    "\<And>d. calledOriginal w d ev \<Longrightarrow> Suc d = heights ?s0 ! w \<Longrightarrow>
       returnSlot (last (contexts (wrappers s2 ! w))) \<noteq> None"
    unfolding ownCalls_def by blast
  have "Suc (length (contexts ?wr)) = heights ?s0 ! w"
    using w by (simp add: heights_pushContext heights_nth)
  with ev(2) assms(4) have "\<not> calledOriginal w (length (contexts ?wr)) ev"
    by blast
  then have "\<not> calledOriginal w (length (contexts ?wr)) (ContextPush w # ev @ [ContextPop w])"
    by simp
  moreover have "trace (popContext w s2) = trace s @ ContextPush w # ev @ [ContextPop w]"
    by (simp add: ev(1))
  ultimately show ?thesis
    using thrown by auto
qed

theorem silent_chain_raises_witness:
  "\<exists>s'. instrumentedCallback 4 0 Undefined [Num 1] silentExample = Threw HandlerDidNotInvoke s' \<and>
        runHandler 4 0 [Invoke 0 Undefined [Num 1]] silentExample = Threw HandlerDidNotInvoke s' \<and>
        (\<exists>ev. trace s' = trace silentExample @ ev \<and> \<not> calledOriginal 0 0 ev)"
proof -
  let ?c0 = "\<lparr>aggregateCount = length (arrays silentExample (aggregateHandlers (wrappers silentExample ! 0))),
              handlerCount = length (handlers (wrappers silentExample ! 0)),
              receiver = Undefined, arguments = [Num 1], returnSlot = None\<rparr>"
  have "\<exists>s2. invokeHandlers 4 0 (pushContext 0 ?c0 silentExample) = Returned s2 \<and>
          returnSlot (last (contexts (wrappers s2 ! 0))) = None"
    unfolding silentExample_eq by (simp add: evalRules)
  then obtain s2 where s2: "invokeHandlers 4 0 (pushContext 0 ?c0 silentExample) = Returned s2"
    "returnSlot (last (contexts (wrappers s2 ! 0))) = None"
    by blast
  have w: "0 < length (wrappers silentExample)"
    and h: "arrays silentExample (aggregateHandlers (wrappers silentExample ! 0)) \<noteq> [] \<or>
            handlers (wrappers silentExample ! 0) \<noteq> []"
    by (simp_all add: silentExample_eq)
  from silent_chain_raises [OF w h s2, where ?w0.0 = 0 and cs = "[]"]
  show ?thesis
    by (simp add: silentExample_eq [THEN arg_cong, of wrappers])
qed

text \<open>
  C3. Let wrapper \<open>w\<close> have been made by \<^verbatim>\<open>instrument\<close> from the name \<open>N\<close> and the
  function \<open>f\<close>. If the array of aggregate handlers registered under \<open>N\<close> and the
  instance handlers of \<open>w\<close> are both empty, an invocation returns \<open>f this args\<close>,
  whatever depth is allowed, and all it does is one call of \<open>f\<close> with \<open>this\<close> and
  \<open>args\<close>: no context is pushed.
\<close>

theorem no_handlers_fast_path:
  assumes "w < length (wrappers s)"
    and "wname (wrappers s ! w) = N" and "originalFunction (wrappers s ! w) = f"
    and "aggregateHandlersByName s N = Some a" and "aggregateHandlers (wrappers s ! w) = a"
    and "arrays s a = []" and "handlers (wrappers s ! w) = []"
  shows "instrumentedCallback n w this args s =
           Returned (f this args,
             s\<lparr>trace := trace s @ [OriginalCall w (length (contexts (wrappers s ! w))) this args]\<rparr>)"
  using assms(1,3,5,6,7)
  by (subst instrumentedCallback.simps) (simp add: Let_def logEvent_def)

theorem no_handlers_fast_path_witness:
  "instrumentedCallback 0 0 Undefined [Num 1] plainExample =
     Returned (Num 2, plainExample\<lparr>trace := [OriginalCall 0 0 Undefined [Num 1]]\<rparr>)"
  using no_handlers_fast_path
          [where w = 0 and s = plainExample and N = "''f''" and f = addOne and a = 0 and n = 0
             and this = Undefined and args = "[Num 1]"]
  by (simp add: plainExample_eq addOne_def)





section \<open>Registry keys and the arrays shared with the closures\<close>

lemma registries_logEvent [simp]:
  "aggregateHandlersByName (logEvent e s) = aggregateHandlersByName s"
  "profileHandlersByName (logEvent e s) = profileHandlersByName s"
  by (simp_all add: logEvent_def)

lemma registries_fold_stop [simp]:
  "aggregateHandlersByName (fold callStopHandler shs s) = aggregateHandlersByName s"
  "profileHandlersByName (fold callStopHandler shs s) = profileHandlersByName s"
proof (induction shs arbitrary: s)
  case (Cons sh shs)
  case 1 show ?case using Cons(1) by (cases sh) simp
  case 2 show ?case using Cons(2) by (cases sh) simp
qed simp_all

lemma registries_stop [simp]:
  "aggregateHandlersByName (stop session s) = aggregateHandlersByName s"
  "profileHandlersByName (stop session s) = profileHandlersByName s"
  by (induction session s rule: stop.induct) simp_all

lemma registries_profileLoop:
  "aggregateHandlersByName (snd (profileLoop hs k nm st acc s)) = aggregateHandlersByName s \<and>
   profileHandlersByName (snd (profileLoop hs k nm st acc s)) = profileHandlersByName s"
  by (induction hs k nm st acc s rule: profileLoop.induct)
     (simp_all add: callProfileHandler_eq split: prod.splits)

lemma registries_profile [simp]:
  "aggregateHandlersByName (snd (profile nm st s)) = aggregateHandlersByName s"
  "profileHandlersByName (snd (profile nm st s)) = profileHandlersByName s"
  using registries_profileLoop [of _ _ nm st None s]
  by (auto simp: profile_def split: option.splits prod.splits) (metis snd_conv)+


lemma static_call:
  "call n c this args s = Returned (v, s') \<or> call n c this args s = Threw e s' \<Longrightarrow>
   static s' = static s"
proof (cases c)
  case (Instrumented w)
  assume "call n c this args s = Returned (v, s') \<or> call n c this args s = Threw e s'"
  with Instrumented static_invocation(2) [of s n w this args] show ?thesis
    by auto
next
  case (Uninstrumented f)
  assume "call n c this args s = Returned (v, s') \<or> call n c this args s = Threw e s'"
  with Uninstrumented show ?thesis
    by auto
qed

lemma applyCall_Call_static:
  "applyCall (Call n c this args) s = Some s' \<Longrightarrow> static s' = static s"
  using static_call [of n c this args s]
  by (auto split: outcome.splits)




text \<open>
  In every state that the operations reach from the initial one, the array a
  closure captured is the array registered under its name, so the handlers that
  \<open>invokeHandlers\<close> reads are the ones registered at the time of the call.
\<close>

lemma aliased_static: "static s' = static s \<Longrightarrow> aliased s' = aliased s"
proof -
  assume eq: "static s' = static s"
  have "aliased t = aliased (static t)" for t
    by (simp add: aliased_def static_def)
  then show ?thesis
    using eq by metis
qed

lemma distinctArrays_static: "static s' = static s \<Longrightarrow> distinctArrays s' = distinctArrays s"
proof -
  assume eq: "static s' = static s"
  have "distinctArrays t = distinctArrays (static t)" for t
    by (simp add: distinctArrays_def static_def)
  then show ?thesis
    using eq by metis
qed

lemma aliased_initial: "aliased (initial d)"
  by (simp add: aliased_def initial_def)

lemma distinctArrays_initial: "distinctArrays (initial d)"
  by (simp add: distinctArrays_def initial_def)

lemma aliased_ensureAggregateKey: "aliased s \<Longrightarrow> aliased (ensureAggregateKey nm s)"
  by (auto simp: aliased_def ensureAggregateKey_def)

lemma ensureAggregateKey_Some:
  "\<exists>a. aggregateHandlersByName (ensureAggregateKey nm s) nm = Some a"
  by (auto simp: ensureAggregateKey_def)

lemma distinctArrays_ensureAggregateKey:
  "distinctArrays s \<Longrightarrow> distinctArrays (ensureAggregateKey nm s)"
  unfolding distinctArrays_def ensureAggregateKey_def
  by (auto simp: inj_on_def ran_def dom_def less_SucI split: if_splits)

lemma aliased_updWrapper:
  assumes "aliased s" and "\<And>wr. wname (f wr) = wname wr"
    and "\<And>wr. aggregateHandlers (f wr) = aggregateHandlers wr"
  shows "aliased (updWrapper w f s)"
proof -
  have "aggregateHandlersByName s (wname wr) = Some (aggregateHandlers wr)"
    if "wr \<in> set ((wrappers s)[w := f (wrappers s ! w)])" for wr
  proof (cases "w < length (wrappers s)")
    case True
    from that set_update_subset_insert [of "wrappers s" w "f (wrappers s ! w)"]
    have "wr = f (wrappers s ! w) \<or> wr \<in> set (wrappers s)"
      by auto
    moreover have "wrappers s ! w \<in> set (wrappers s)"
      using True by simp
    ultimately show ?thesis
      using assms unfolding aliased_def by auto
  next
    case False
    with that assms(1) show ?thesis
      by (simp add: aliased_def list_update_beyond)
  qed
  then show ?thesis
    by (simp add: aliased_def updWrapper_def)
qed

lemma wrappers_profile: "wrappers (snd (profile nm st s)) = wrappers s"
  by (simp add: profile_def profileLoop_eq split: option.splits)

lemma wrappers_fold_stop: "wrappers (fold callStopHandler shs s) = wrappers s"
proof (induction shs arbitrary: s)
  case Nil
  show ?case by simp
next
  case (Cons sh shs)
  then show ?case by (cases sh) simp
qed

lemma wrappers_stop: "wrappers (stop session s) = wrappers s"
  by (induction session s rule: stop.induct) (simp_all add: wrappers_fold_stop)

lemma aliased_cong:
  "wrappers s' = wrappers s \<Longrightarrow> aggregateHandlersByName s' = aggregateHandlersByName s \<Longrightarrow>
   aliased s' = aliased s"
  by (simp add: aliased_def)

lemma aliased_applyCall:
  assumes "aliased s" and "applyCall c s = Some s'"
  shows "aliased s'"
proof (cases c)
  case (Call n c' this args)
  with assms aliased_static [OF applyCall_Call_static] show ?thesis
    by simp
next
  case (Instrument nm f)
  from aliased_ensureAggregateKey [OF assms(1), of nm] ensureAggregateKey_Some [of nm s]
  show ?thesis
    using assms Instrument
    by (auto simp: instrument_def Let_def aliased_def split: if_splits)
next
  case (AttachHandler c' h)
  with assms show ?thesis
    by (cases c') (auto intro: aliased_updWrapper)
next
  case (DetachHandler c' h)
  with assms show ?thesis
    by (cases c') (auto intro: aliased_updWrapper)
next
  case (AttachAggregateHandler nm h)
  from aliased_ensureAggregateKey [OF assms(1), of nm]
  show ?thesis
    using assms AttachAggregateHandler
    by (auto simp: attachAggregateHandler_def Let_def aliased_def split: option.splits if_splits)
next
  case (DetachAggregateHandler nm h)
  have "aliased (detachAggregateHandler nm h s) = aliased s"
    by (rule aliased_cong) (simp_all add: detachAggregateHandler_def split: option.splits)
  with assms DetachAggregateHandler show ?thesis
    by simp
next
  case (AttachProfileHandler nm h)
  have "aliased (attachProfileHandler nm h s) = aliased s"
    by (rule aliased_cong) (simp_all add: attachProfileHandler_def Let_def split: option.splits)
  with assms AttachProfileHandler show ?thesis
    by simp
next
  case (DetachProfileHandler nm h)
  have "aliased (detachProfileHandler nm h s) = aliased s"
    by (rule aliased_cong) (simp_all add: detachProfileHandler_def split: option.splits)
  with assms DetachProfileHandler show ?thesis
    by simp
next
  case (SetEnableProfile b)
  with assms show ?thesis
    by (auto simp: setEnableProfile_def aliased_def)
next
  case (Profile nm st)
  have "aliased (snd (profile nm st s)) = aliased s"
    by (rule aliased_cong) (simp_all add: wrappers_profile)
  with assms Profile show ?thesis
    by simp
next
  case (Stop session)
  have "aliased (stop session s) = aliased s"
    by (rule aliased_cong) (simp_all add: wrappers_stop)
  with assms Stop show ?thesis
    by simp
qed

lemma distinctArrays_cong:
  "aggregateHandlersByName s' = aggregateHandlersByName s \<Longrightarrow> nextArray s' = nextArray s \<Longrightarrow>
   distinctArrays s' = distinctArrays s"
  by (simp add: distinctArrays_def)

lemma nextArray_profile: "nextArray (snd (profile nm st s)) = nextArray s"
  by (simp add: profile_def profileLoop_eq split: option.splits)

lemma nextArray_fold_stop: "nextArray (fold callStopHandler shs s) = nextArray s"
proof (induction shs arbitrary: s)
  case Nil
  show ?case by simp
next
  case (Cons sh shs)
  then show ?case by (cases sh) (simp add: logEvent_def)
qed

lemma nextArray_stop: "nextArray (stop session s) = nextArray s"
  by (induction session s rule: stop.induct) (simp_all add: nextArray_fold_stop)

lemma distinctArrays_applyCall:
  assumes "distinctArrays s" and "applyCall c s = Some s'"
  shows "distinctArrays s'"
proof (cases c)
  case (Call n c' this args)
  with assms distinctArrays_static [OF applyCall_Call_static] show ?thesis
    by simp
next
  case (Instrument nm f)
  have "distinctArrays (snd (instrument nm f s)) =
        distinctArrays (if dev s then ensureAggregateKey nm s else s)"
    by (rule distinctArrays_cong) (simp_all add: instrument_def Let_def split: option.splits)
  with assms Instrument distinctArrays_ensureAggregateKey [OF assms(1), of nm] show ?thesis
    by (simp split: if_splits)
next
  case (AttachAggregateHandler nm h)
  have "distinctArrays (attachAggregateHandler nm h s) =
        distinctArrays (if dev s then ensureAggregateKey nm s else s)"
    by (rule distinctArrays_cong)
       (simp_all add: attachAggregateHandler_def Let_def split: option.splits)
  with assms AttachAggregateHandler distinctArrays_ensureAggregateKey [OF assms(1), of nm]
  show ?thesis
    by (simp split: if_splits)
next
  case (AttachHandler c' h)
  have "distinctArrays (attachHandler c' h s) = distinctArrays s"
    by (rule distinctArrays_cong) (cases c'; simp add: updWrapper_def)+
  with assms AttachHandler show ?thesis
    by simp
next
  case (DetachHandler c' h)
  have "distinctArrays (detachHandler c' h s) = distinctArrays s"
    by (rule distinctArrays_cong) (cases c'; simp add: updWrapper_def)+
  with assms DetachHandler show ?thesis
    by simp
next
  case (DetachAggregateHandler nm h)
  have "distinctArrays (detachAggregateHandler nm h s) = distinctArrays s"
    by (rule distinctArrays_cong) (simp_all add: detachAggregateHandler_def split: option.splits)
  with assms DetachAggregateHandler show ?thesis
    by simp
next
  case (AttachProfileHandler nm h)
  have "distinctArrays (attachProfileHandler nm h s) = distinctArrays s"
    by (rule distinctArrays_cong)
       (simp_all add: attachProfileHandler_def Let_def split: option.splits)
  with assms AttachProfileHandler show ?thesis
    by simp
next
  case (DetachProfileHandler nm h)
  have "distinctArrays (detachProfileHandler nm h s) = distinctArrays s"
    by (rule distinctArrays_cong) (simp_all add: detachProfileHandler_def split: option.splits)
  with assms DetachProfileHandler show ?thesis
    by simp
next
  case (SetEnableProfile b)
  have "distinctArrays (setEnableProfile b s) = distinctArrays s"
    by (rule distinctArrays_cong) (simp_all add: setEnableProfile_def)
  with assms SetEnableProfile show ?thesis
    by simp
next
  case (Profile nm st)
  have "distinctArrays (snd (profile nm st s)) = distinctArrays s"
    by (rule distinctArrays_cong) (simp_all add: nextArray_profile)
  with assms Profile show ?thesis
    by simp
next
  case (Stop session)
  have "distinctArrays (stop session s) = distinctArrays s"
    by (rule distinctArrays_cong) (simp_all add: nextArray_stop)
  with assms Stop show ?thesis
    by simp
qed

lemma applyCalls_invariant:
  "aliased s \<Longrightarrow> distinctArrays s \<Longrightarrow> applyCalls cs s = Some s' \<Longrightarrow>
   aliased s' \<and> distinctArrays s'"
proof (induction cs arbitrary: s)
  case Nil
  then show ?case by simp
next
  case (Cons c cs)
  from Cons.prems(3) obtain s1 where s1: "applyCall c s = Some s1" "applyCalls cs s1 = Some s'"
    by (auto split: option.splits)
  from Cons.IH [OF aliased_applyCall [OF Cons.prems(1) s1(1)]
                   distinctArrays_applyCall [OF Cons.prems(2) s1(1)] s1(2)]
  show ?case .
qed

lemma reachable_aliased:
  "applyCalls cs (initial d) = Some s \<Longrightarrow> aliased s \<and> distinctArrays s"
  by (rule applyCalls_invariant [OF aliased_initial distinctArrays_initial])

end
